theory Spec2Isabelle
  imports Main "HOL-Library.Sublist" "HOL-Library.AList" "HOL-Library.List_Lexorder" "HOL-Library.Char_ord"
begin

section \<open>Strings and paths\<close>

text \<open>
  Go strings are byte sequences; they are modelled as \<^typ>\<open>string\<close>.
  \<^verbatim>\<open>strings.HasPrefix\<close> and \<^verbatim>\<open>strings.HasSuffix\<close> are \<^const>\<open>prefix\<close> and
  \<^const>\<open>suffix\<close>, \<^verbatim>\<open>strings.Contains\<close> is \<^const>\<open>sublist\<close>.
\<close>

definition strings_HasPrefix :: "string \<Rightarrow> string \<Rightarrow> bool" where
  "strings_HasPrefix s p = prefix p s"

definition strings_HasSuffix :: "string \<Rightarrow> string \<Rightarrow> bool" where
  "strings_HasSuffix s p = suffix p s"

text \<open>
  \<^verbatim>\<open>strings.Split(s, sep)\<close> for a non-empty separator: the pieces of \<open>s\<close> between the
  leftmost non-overlapping occurrences of \<open>sep\<close>. The accumulator holds the piece being
  read.
\<close>

function split_acc :: "string \<Rightarrow> string \<Rightarrow> string \<Rightarrow> string list" where
  "split_acc sep acc [] = [acc]"
| "split_acc sep acc (x # xs) =
     (if sep \<noteq> [] \<and> prefix sep (x # xs)
      then acc # split_acc sep [] (drop (length sep) (x # xs))
      else split_acc sep (acc @ [x]) xs)"
  by pat_completeness auto
termination
  by (relation "measure (\<lambda>(sep, acc, s). length s)") auto

definition strings_Split :: "string \<Rightarrow> string \<Rightarrow> string list" where
  "strings_Split s sep = split_acc sep [] s"

text \<open>The components of a path: the pieces between slashes.\<close>

fun split_slash :: "string \<Rightarrow> string list" where
  "split_slash [] = [[]]"
| "split_slash (x # xs) =
     (if x = CHR ''/'' then [] # split_slash xs
      else (case split_slash xs of [] \<Rightarrow> [[x]] | p # ps \<Rightarrow> (x # p) # ps))"

fun join_slash :: "string list \<Rightarrow> string" where
  "join_slash [] = []"
| "join_slash [p] = p"
| "join_slash (p # q # ps) = p @ CHR ''/'' # join_slash (q # ps)"

definition rooted :: "string \<Rightarrow> bool" where
  "rooted s = (case s of [] \<Rightarrow> False | c # _ \<Rightarrow> c = CHR ''/'')"

text \<open>
  \<^verbatim>\<open>path.Clean\<close> (and \<^verbatim>\<open>filepath.Clean\<close> on Linux): purely lexical. Empty and \<open>.\<close>
  elements are dropped, an inner \<open>..\<close> removes the element before it, a \<open>..\<close> at the
  start of a rooted path is dropped, and at the start of a relative path it is kept. The
  empty result is \<open>.\<close>.
\<close>

definition clean_step :: "bool \<Rightarrow> string list \<Rightarrow> string \<Rightarrow> string list" where
  "clean_step r st c =
     (if c = [] \<or> c = ''.'' then st
      else if c = ''..'' then
        (if st \<noteq> [] \<and> last st \<noteq> ''..'' then butlast st
         else if r then st else st @ [''..''])
      else st @ [c])"

definition path_Clean :: "string \<Rightarrow> string" where
  "path_Clean s =
     (let st = foldl (clean_step (rooted s)) [] (split_slash s) in
      if rooted s then CHR ''/'' # join_slash st
      else if st = [] then ''.'' else join_slash st)"

text \<open>
  \<^verbatim>\<open>path.Join\<close> (and \<^verbatim>\<open>filepath.Join\<close> on Linux): empty elements are ignored, the
  rest is joined with slashes and cleaned; with no non-empty element the result is empty.
\<close>

definition path_Join :: "string list \<Rightarrow> string" where
  "path_Join elems =
     (let es = filter (\<lambda>e. e \<noteq> []) elems in
      if es = [] then [] else path_Clean (join_slash es))"

section \<open>The file system\<close>

text \<open>
  A file system without symbolic links and without permission checks: a finite table from
  absolute paths, held as lists of components, to nodes. The root (the empty list) is a
  directory. A path string is resolved against the working directory as the kernel does
  it when no symbolic link is involved.
\<close>

type_synonym key = "string list"

datatype node = Dir | File string

type_synonym filesystem = "(key \<times> node) list"

definition walk_step :: "key \<Rightarrow> string \<Rightarrow> key" where
  "walk_step st c =
     (if c = [] \<or> c = ''.'' then st
      else if c = ''..'' then butlast st
      else st @ [c])"

definition resolve :: "key \<Rightarrow> string \<Rightarrow> key" where
  "resolve wd s = foldl walk_step (if rooted s then [] else wd) (split_slash s)"

definition lookup :: "filesystem \<Rightarrow> key \<Rightarrow> node option" where
  "lookup f k = (if k = [] then Some Dir else map_of f k)"

definition put :: "filesystem \<Rightarrow> key \<Rightarrow> node \<Rightarrow> filesystem" where
  "put f k n = AList.update k n f"

definition remove_tree :: "filesystem \<Rightarrow> key \<Rightarrow> filesystem" where
  "remove_tree f k = filter (\<lambda>(p, n). \<not> prefix k p) f"

text \<open>
  The errors of a pass, one constructor for each place an error comes from: the system
  calls, \<^verbatim>\<open>os.MkdirTemp\<close>, the registry client, the YAML, gzip and tar readers, the key
  ring parser, the signature check, \<^verbatim>\<open>docker-compose\<close> and the Docker client.
\<close>

datatype error =
    ENOENT | ENOTDIR | EISDIR | EEXIST | ErrPatternHasSeparator
  | RefError | RegistryError | NoAppDeploymentFound | YamlError | UnsupportedURLFormat string
  | GzipError | TarError | ReadError | KeyRingError | SignatureVerificationFailed
  | ExecError | DockerError

text \<open>\<^verbatim>\<open>os.Stat\<close>: the node at a path. The empty path names nothing.\<close>

definition os_Stat :: "key \<Rightarrow> filesystem \<Rightarrow> string \<Rightarrow> error + node" where
  "os_Stat wd f name =
     (if name = [] then Inl ENOENT
      else case lookup f (resolve wd name) of None \<Rightarrow> Inl ENOENT | Some n \<Rightarrow> Inr n)"

text \<open>
  \<^verbatim>\<open>fileExists\<close> of the source: false when \<^verbatim>\<open>os.Stat\<close> reports that the file does not
  exist, and otherwise true exactly when \<^verbatim>\<open>os.Stat\<close> reported no error.
\<close>

definition fileExists :: "key \<Rightarrow> filesystem \<Rightarrow> string \<Rightarrow> bool" where
  "fileExists wd f filename =
     (case os_Stat wd f filename of
        Inl e \<Rightarrow> (if e = ENOENT then False else False)
      | Inr n \<Rightarrow> True)"

text \<open>
  \<^verbatim>\<open>os.Open\<close> followed by reading everything (\<^verbatim>\<open>io.ReadAll\<close>): opening a directory
  succeeds, reading it fails.
\<close>

definition read_file :: "key \<Rightarrow> filesystem \<Rightarrow> string \<Rightarrow> error + string" where
  "read_file wd f name =
     (case os_Stat wd f name of
        Inl e \<Rightarrow> Inl e
      | Inr Dir \<Rightarrow> Inl EISDIR
      | Inr (File c) \<Rightarrow> Inr c)"

text \<open>
  Opening a file for writing with \<^verbatim>\<open>O_CREATE\<close>: the parent must be a directory and the
  path must not be one. A new file is empty. Writing \<open>d\<close> from offset 0 keeps the bytes of
  the old content beyond \<open>length d\<close> unless the file was truncated (\<^verbatim>\<open>O_TRUNC\<close>).
\<close>

definition open_create :: "key \<Rightarrow> filesystem \<Rightarrow> string \<Rightarrow> error + (key \<times> string)" where
  "open_create wd f name =
     (if name = [] then Inl ENOENT
      else let k = resolve wd name in
        if k = [] then Inl EISDIR
        else case lookup f (butlast k) of
          None \<Rightarrow> Inl ENOENT
        | Some (File c) \<Rightarrow> Inl ENOTDIR
        | Some Dir \<Rightarrow>
            (case lookup f k of
               Some Dir \<Rightarrow> Inl EISDIR
             | Some (File old) \<Rightarrow> Inr (k, old)
             | None \<Rightarrow> Inr (k, [])))"

definition overwrite :: "string \<Rightarrow> string \<Rightarrow> string" where
  "overwrite old d = d @ drop (length d) old"

text \<open>\<^verbatim>\<open>os.WriteFile\<close>: create or truncate, then write.\<close>

definition os_WriteFile :: "key \<Rightarrow> filesystem \<Rightarrow> string \<Rightarrow> string \<Rightarrow> error + filesystem" where
  "os_WriteFile wd f name d =
     (case open_create wd f name of
        Inl e \<Rightarrow> Inl e
      | Inr (k, old) \<Rightarrow> Inr (put f k (File d)))"

text \<open>\<^verbatim>\<open>os.Mkdir\<close>: the parent must be a directory and the path must not exist.\<close>

definition os_Mkdir :: "key \<Rightarrow> filesystem \<Rightarrow> string \<Rightarrow> error + filesystem" where
  "os_Mkdir wd f name =
     (if name = [] then Inl ENOENT
      else let k = resolve wd name in
        if lookup f k \<noteq> None then Inl EEXIST
        else case lookup f (butlast k) of
          None \<Rightarrow> Inl ENOENT
        | Some (File c) \<Rightarrow> Inl ENOTDIR
        | Some Dir \<Rightarrow> Inr (put f k Dir))"

text \<open>
  \<^verbatim>\<open>os.MkdirAll\<close>: every missing directory on the way is created; a file on the way is an
  error, and the directories created before it stay.
\<close>

fun mkdirs :: "filesystem \<Rightarrow> key \<Rightarrow> string list \<Rightarrow> error option \<times> filesystem" where
  "mkdirs f pre [] = (None, f)"
| "mkdirs f pre (c # cs) =
     (case lookup f (pre @ [c]) of
        Some (File d) \<Rightarrow> (Some ENOTDIR, f)
      | Some Dir \<Rightarrow> mkdirs f (pre @ [c]) cs
      | None \<Rightarrow> mkdirs (put f (pre @ [c]) Dir) (pre @ [c]) cs)"

definition os_MkdirAll :: "key \<Rightarrow> filesystem \<Rightarrow> string \<Rightarrow> error option \<times> filesystem" where
  "os_MkdirAll wd f name =
     (if name = [] then (Some ENOENT, f) else mkdirs f [] (resolve wd name))"

text \<open>\<^verbatim>\<open>os.RemoveAll\<close>: the path and everything below it; a missing path is no error.\<close>

definition os_RemoveAll :: "key \<Rightarrow> filesystem \<Rightarrow> string \<Rightarrow> filesystem" where
  "os_RemoveAll wd f name = (if name = [] then f else remove_tree f (resolve wd name))"

section \<open>Events, archives and the world outside the program\<close>

text \<open>
  What a pass does to the outside world, in order: the lines it logs, the calls to the
  registry, the \<^verbatim>\<open>docker-compose\<close> commands it runs (with the directory they run in) and
  the images it loads.
\<close>

datatype event =
    LogSkipHidden string | LogSkipUnsupported char
  | LogDownloading string | LogVerifying string | LogVerified
  | LogUpToDate string | LogFailedToStart string error | LogFetching string
  | LogPurging string | LogFailedToStop string | LogStarting string
  | Ping string | ManifestGet string | BlobGet string string
  | ComposePs string | ComposeUp string | ComposeDown string | ImageLoad string

datatype panic = IndexOutOfRange nat nat | InterfaceConversion

datatype 'a result = Ok 'a | Err error | Panic panic

text \<open>
  A decoded \<^verbatim>\<open>.tar.gz\<close> stream: either the gzip header is bad, or the tar reader yields
  entries and then the end of the archive (\<open>True\<close>) or an error (\<open>False\<close>). An entry
  carries the bytes that could be read of its body and whether the reading broke off.
\<close>

record tar_entry =
  hdr_Name :: string
  hdr_Typeflag :: char
  hdr_Mode :: nat
  Body :: string
  Truncated :: bool

datatype archive = BadGzip | Tar "tar_entry list" bool

definition TypeReg :: char where
  "TypeReg = CHR ''0''"

definition TypeDir :: char where
  "TypeDir = CHR ''5''"

record descriptor =
  MediaType :: string
  Digest :: string

datatype manifest = Imager "descriptor list" | NotImager

record component =
  Name :: string
  KeyLocation :: string
  PackageLocation :: string

text \<open>
  The collaborators the source calls and does not define: the process environment, the
  registry client, the gzip, tar, YAML and OpenPGP libraries, \<^verbatim>\<open>docker-compose\<close> and the
  Docker daemon. A call either succeeds (\<open>True\<close>, or \<open>Some\<close> result) or fails. Calls that
  reach outside the process may answer differently each time: they are given the events
  so far.
\<close>

record world =
  cwd :: key
  TempDir :: string
  nextRandom :: "nat \<Rightarrow> string"
  gunzip_tar :: "string \<Rightarrow> archive"
  ref_New :: "string \<Rightarrow> bool"
  rc_Ping :: "event list \<Rightarrow> string \<Rightarrow> bool"
  rc_ManifestGet :: "event list \<Rightarrow> string \<Rightarrow> manifest option"
  rc_BlobGet :: "event list \<Rightarrow> string \<Rightarrow> string \<Rightarrow> string option"
  yaml_Unmarshal :: "string \<Rightarrow> component list option"
  ReadArmoredKeyRing :: "string \<Rightarrow> bool"
  CheckDetachedSignature :: "string \<Rightarrow> string \<Rightarrow> string \<Rightarrow> bool"
  compose_ps :: "event list \<Rightarrow> string \<Rightarrow> string option"
  compose_up :: "event list \<Rightarrow> string \<Rightarrow> bool"
  compose_down :: "event list \<Rightarrow> string \<Rightarrow> bool"
  docker_NewClient :: bool
  docker_ImageLoad :: "event list \<Rightarrow> string \<Rightarrow> bool"

text \<open>
  The state a pass works on: the file system, the events so far, the scratch directories
  whose removal is deferred to the end of the pass, the number of random names drawn, and
  the names recorded as allowed.
\<close>

record state =
  fs :: filesystem
  trace :: "event list"
  deferred :: "string list"
  draws :: nat
  allowedDeployments :: "string \<rightharpoonup> bool"

definition emit :: "event \<Rightarrow> state \<Rightarrow> state" where
  "emit e st = st\<lparr>trace := trace st @ [e]\<rparr>"

section \<open>The archive extractor\<close>

fun unpack_entries ::
  "key \<Rightarrow> string \<Rightarrow> bool \<Rightarrow> tar_entry list \<Rightarrow> bool \<Rightarrow> state \<Rightarrow> error option \<times> state"
where
  "unpack_entries wd destDir skipHidden [] eof st = (if eof then None else Some TarError, st)"
| "unpack_entries wd destDir skipHidden (h # rest) eof st =
     (if skipHidden \<and> strings_HasPrefix (hdr_Name h) ''.'' then
        unpack_entries wd destDir skipHidden rest eof (emit (LogSkipHidden (hdr_Name h)) st)
      else if hdr_Typeflag h = TypeDir then
        (case os_MkdirAll wd (fs st) (path_Join [destDir, hdr_Name h]) of
           (Some e, f) \<Rightarrow> (Some e, st\<lparr>fs := f\<rparr>)
         | (None, f) \<Rightarrow> unpack_entries wd destDir skipHidden rest eof (st\<lparr>fs := f\<rparr>))
      else if hdr_Typeflag h = TypeReg then
        (case open_create wd (fs st) (path_Join [destDir, hdr_Name h]) of
           Inl e \<Rightarrow> (Some e, st)
         | Inr (k, old) \<Rightarrow>
             if Truncated h
             then (Some ReadError, st\<lparr>fs := put (fs st) k (File (overwrite old (Body h)))\<rparr>)
             else unpack_entries wd destDir skipHidden rest eof
                    (st\<lparr>fs := put (fs st) k (File (overwrite old (Body h)))\<rparr>))
      else
        unpack_entries wd destDir skipHidden rest eof
          (emit (LogSkipUnsupported (hdr_Typeflag h)) st))"

definition unpackTgz :: "world \<Rightarrow> string \<Rightarrow> string \<Rightarrow> bool \<Rightarrow> state \<Rightarrow> error option \<times> state" where
  "unpackTgz w src destDir skipHidden st =
     (case gunzip_tar w src of
        BadGzip \<Rightarrow> (Some GzipError, st)
      | Tar entries eof \<Rightarrow> unpack_entries (cwd w) destDir skipHidden entries eof st)"

text \<open>
  \<^verbatim>\<open>filepath.Walk\<close>: the root, then everything below it, directories before their
  contents and the names of a directory in byte order, which is the lexicographic order
  of the component lists. Each visit has the path as \<^verbatim>\<open>Walk\<close> builds it, the base name and
  the node. A root that cannot be examined is the only error.
\<close>

definition filepath_Walk ::
  "key \<Rightarrow> filesystem \<Rightarrow> string \<Rightarrow> error + (string \<times> string \<times> node) list"
where
  "filepath_Walk wd f root =
     (case os_Stat wd f root of
        Inl e \<Rightarrow> Inl e
      | Inr n \<Rightarrow>
          Inr ((root, (if resolve wd root = [] then ''/'' else last (resolve wd root)), n) #
               List.map_filter
                 (\<lambda>k. case lookup f k of
                         None \<Rightarrow> None
                       | Some nd \<Rightarrow>
                           Some (path_Join [root, join_slash (drop (length (resolve wd root)) k)],
                                 last k, nd))
                 (sort (remdups (filter (strict_prefix (resolve wd root)) (map fst f))))))"

definition findAppFiles :: "key \<Rightarrow> filesystem \<Rightarrow> string \<Rightarrow> error + string list" where
  "findAppFiles wd f dir =
     (case filepath_Walk wd f dir of
        Inl e \<Rightarrow> Inl e
      | Inr visits \<Rightarrow>
          Inr (map fst
                (filter (\<lambda>(p, name, nd). nd \<noteq> Dir \<and> strings_HasSuffix name ''.app'') visits)))"

section \<open>Deployment lifecycle, signature verification and the registry\<close>

definition uploadToDocker :: "world \<Rightarrow> string \<Rightarrow> state \<Rightarrow> error option \<times> state" where
  "uploadToDocker w filePath st =
     (if \<not> docker_NewClient w then (Some DockerError, st)
      else case os_Stat (cwd w) (fs st) filePath of
        Inl e \<Rightarrow> (Some e, st)
      | Inr n \<Rightarrow>
          (if docker_ImageLoad w (trace st) filePath then None else Some DockerError,
           emit (ImageLoad filePath) st))"

definition dockerEnsureRunning :: "world \<Rightarrow> string \<Rightarrow> state \<Rightarrow> error option \<times> state" where
  "dockerEnsureRunning w dir st =
     (case compose_ps w (trace st) dir of
        None \<Rightarrow> (Some ExecError, emit (ComposePs dir) st)
      | Some output \<Rightarrow>
          if length output > 0 then (None, emit (ComposePs dir) st)
          else (if compose_up w (trace (emit (LogStarting dir) (emit (ComposePs dir) st))) dir
                then None else Some ExecError,
                emit (ComposeUp dir) (emit (LogStarting dir) (emit (ComposePs dir) st))))"

definition verifyGPGSignature ::
  "world \<Rightarrow> string \<Rightarrow> string \<Rightarrow> string \<Rightarrow> state \<Rightarrow> error option \<times> state"
where
  "verifyGPGSignature w pubKey signedFile signatureFile st =
     (if \<not> ReadArmoredKeyRing w pubKey then (Some KeyRingError, emit (LogVerifying signedFile) st)
      else case os_Stat (cwd w) (fs st) signatureFile of
        Inl e \<Rightarrow> (Some e, emit (LogVerifying signedFile) st)
      | Inr sn \<Rightarrow>
          (case os_Stat (cwd w) (fs st) signedFile of
             Inl e \<Rightarrow> (Some e, emit (LogVerifying signedFile) st)
           | Inr dn \<Rightarrow>
               (case (dn, sn) of
                  (File signed, File signature) \<Rightarrow>
                    if CheckDetachedSignature w pubKey signed signature
                    then (None, emit LogVerified (emit (LogVerifying signedFile) st))
                    else (Some SignatureVerificationFailed, emit (LogVerifying signedFile) st)
                | _ \<Rightarrow> (Some SignatureVerificationFailed, emit (LogVerifying signedFile) st))))"

definition is_lower_hex :: "char \<Rightarrow> bool" where
  "is_lower_hex c = (c \<in> set ''abcdef0123456789'')"

text \<open>
  The pattern of \<^verbatim>\<open>downloadFromOCI\<close>,
  \<^verbatim>\<open>^http://ghcr\.io/v2/([^/]+)/([^/]+)/blobs/(sha256:[a-f0-9]+)$\<close>, and its three groups.
\<close>

definition match_url :: "string \<Rightarrow> (string \<times> string \<times> string) option" where
  "match_url url =
     (if \<not> prefix ''http://ghcr.io/v2/'' url then None
      else let r1 = drop (length ''http://ghcr.io/v2/'') url;
               owner = takeWhile (\<lambda>c. c \<noteq> CHR ''/'') r1;
               r2 = dropWhile (\<lambda>c. c \<noteq> CHR ''/'') r1 in
        if owner = [] \<or> r2 = [] then None
        else let repo = takeWhile (\<lambda>c. c \<noteq> CHR ''/'') (tl r2);
                 r3 = dropWhile (\<lambda>c. c \<noteq> CHR ''/'') (tl r2) in
          if repo = [] \<or> \<not> prefix ''/blobs/sha256:'' r3 then None
          else let hex = drop (length ''/blobs/sha256:'') r3 in
            if hex \<noteq> [] \<and> list_all is_lower_hex hex
            then Some (owner, repo, ''sha256:'' @ hex) else None)"

definition downloadFromOCI :: "world \<Rightarrow> string \<Rightarrow> state \<Rightarrow> (error + string) \<times> state" where
  "downloadFromOCI w url st =
     (case match_url url of
        None \<Rightarrow> (Inl (UnsupportedURLFormat url), emit (LogDownloading url) st)
      | Some (owner, repo, sha256) \<Rightarrow>
          if \<not> ref_New w (''ghcr.io/'' @ owner @ ''/'' @ repo @ '':latest'')
          then (Inl RefError, emit (LogDownloading url) st)
          else
            (case rc_BlobGet w (trace (emit (LogDownloading url) st))
                    (''ghcr.io/'' @ owner @ ''/'' @ repo @ '':latest'') sha256 of
               None \<Rightarrow> Inl RegistryError
             | Some b \<Rightarrow> Inr b,
             emit (BlobGet (''ghcr.io/'' @ owner @ ''/'' @ repo @ '':latest'') sha256)
               (emit (LogDownloading url) st)))"

text \<open>
  \<^verbatim>\<open>getAppDeployment\<close>: the first layer with the media type of a desired state is
  fetched and parsed. A manifest that is no image manifest makes the type assertion panic.
\<close>

definition desired_state_layer :: "descriptor \<Rightarrow> bool" where
  "desired_state_layer desc = (MediaType desc = ''application/vnd.margo.desired-state.v1+yaml'')"

definition getAppDeployment :: "world \<Rightarrow> string \<Rightarrow> state \<Rightarrow> component list result \<times> state" where
  "getAppDeployment w deployRepo st =
     (if \<not> ref_New w deployRepo then (Err RefError, st)
      else if \<not> rc_Ping w (trace st) deployRepo then (Err RegistryError, emit (Ping deployRepo) st)
      else case rc_ManifestGet w (trace (emit (Ping deployRepo) st)) deployRepo of
        None \<Rightarrow> (Err RegistryError, emit (ManifestGet deployRepo) (emit (Ping deployRepo) st))
      | Some NotImager \<Rightarrow>
          (Panic InterfaceConversion, emit (ManifestGet deployRepo) (emit (Ping deployRepo) st))
      | Some (Imager layers) \<Rightarrow>
          (case find desired_state_layer layers of
             None \<Rightarrow>
               (Err NoAppDeploymentFound,
                emit (ManifestGet deployRepo) (emit (Ping deployRepo) st))
           | Some desc \<Rightarrow>
               (case rc_BlobGet w
                       (trace (emit (ManifestGet deployRepo) (emit (Ping deployRepo) st)))
                       deployRepo (Digest desc) of
                  None \<Rightarrow> Err RegistryError
                | Some b \<Rightarrow>
                    (case yaml_Unmarshal w b of
                       None \<Rightarrow> Err YamlError
                     | Some cs \<Rightarrow> Ok cs),
                emit (BlobGet deployRepo (Digest desc))
                  (emit (ManifestGet deployRepo) (emit (Ping deployRepo) st)))))"

section \<open>Scratch directories\<close>

text \<open>
  \<^verbatim>\<open>os.MkdirTemp("", pattern)\<close>: a pattern with a path separator is refused; the last
  \<open>*\<close> of the pattern, or else its end, is where the random string goes; a name that
  exists is tried again with a new random string, up to 10000 times.
\<close>

definition prefixAndSuffix :: "string \<Rightarrow> string \<times> string" where
  "prefixAndSuffix pattern =
     (if CHR ''*'' \<in> set pattern
      then (rev (tl (dropWhile (\<lambda>c. c \<noteq> CHR ''*'') (rev pattern))),
            rev (takeWhile (\<lambda>c. c \<noteq> CHR ''*'') (rev pattern)))
      else (pattern, []))"

definition joinPath :: "string \<Rightarrow> string \<Rightarrow> string" where
  "joinPath dir name =
     (if dir \<noteq> [] \<and> last dir = CHR ''/'' then dir @ name else dir @ ''/'' @ name)"

function mkdirTemp_loop ::
  "world \<Rightarrow> string \<Rightarrow> string \<Rightarrow> nat \<Rightarrow> state \<Rightarrow> (error + string) \<times> state"
where
  "mkdirTemp_loop w pre suf try st =
     (case os_Mkdir (cwd w) (fs st) (pre @ nextRandom w (draws st) @ suf) of
        Inr f \<Rightarrow> (Inr (pre @ nextRandom w (draws st) @ suf), st\<lparr>fs := f, draws := draws st + 1\<rparr>)
      | Inl e \<Rightarrow>
          if e = EEXIST then
            (if try + 1 < 10000 then mkdirTemp_loop w pre suf (try + 1) (st\<lparr>draws := draws st + 1\<rparr>)
             else (Inl EEXIST, st\<lparr>draws := draws st + 1\<rparr>))
          else (Inl e, st\<lparr>draws := draws st + 1\<rparr>))"
  by pat_completeness auto
termination
  by (relation "measure (\<lambda>(w, pre, suf, try, st). 10000 - try)") auto

definition os_MkdirTemp :: "world \<Rightarrow> string \<Rightarrow> state \<Rightarrow> (error + string) \<times> state" where
  "os_MkdirTemp w pattern st =
     (if CHR ''/'' \<in> set pattern then (Inl ErrPatternHasSeparator, st)
      else mkdirTemp_loop w (joinPath (TempDir w) (fst (prefixAndSuffix pattern)))
             (snd (prefixAndSuffix pattern)) 0 st)"

section \<open>The reconciler\<close>

text \<open>
  The expected digest of a component: element 1 of the package location split at
  \<open>sha256:\<close>. Indexing a slice out of range panics.
\<close>

definition expectedHashOf :: "string \<Rightarrow> panic + string" where
  "expectedHashOf packageLocation =
     (if 1 < length (strings_Split packageLocation ''sha256:'')
      then Inr (strings_Split packageLocation ''sha256:'' ! 1)
      else Inl (IndexOutOfRange 1 (length (strings_Split packageLocation ''sha256:''))))"

text \<open>\<^verbatim>\<open>dockerEnsureRunning\<close> as the loop calls it: a failure is logged and nothing more.\<close>

definition ensureRunning_logged :: "world \<Rightarrow> string \<Rightarrow> string \<Rightarrow> state \<Rightarrow> state" where
  "ensureRunning_logged w name destDir st =
     (case dockerEnsureRunning w destDir st of
        (Some e, st') \<Rightarrow> emit (LogFailedToStart name e) st'
      | (None, st') \<Rightarrow> st')"

text \<open>
  The loop body for a component that is not up to date, in three parts. First: the
  scratch directory, whose removal is deferred, the key, the package and its extraction
  into the scratch directory with hidden entries skipped. The result is the scratch
  directory and the key.
\<close>

definition fetch_and_extract ::
  "world \<Rightarrow> component \<Rightarrow> state \<Rightarrow> (string \<times> string) result \<times> state"
where
  "fetch_and_extract w deployment st =
     (case os_MkdirTemp w (Name deployment) (emit (LogFetching (Name deployment)) st) of
        (Inl e, s1) \<Rightarrow> (Err e, s1)
      | (Inr tempDir, s1) \<Rightarrow>
          (case downloadFromOCI w (KeyLocation deployment)
                  (s1\<lparr>deferred := tempDir # deferred s1\<rparr>) of
             (Inl e, s2) \<Rightarrow> (Err e, s2)
           | (Inr pubKey, s2) \<Rightarrow>
               (case downloadFromOCI w (PackageLocation deployment) s2 of
                  (Inl e, s3) \<Rightarrow> (Err e, s3)
                | (Inr pkg, s3) \<Rightarrow>
                    (case unpackTgz w pkg tempDir True s3 of
                       (Some e, s4) \<Rightarrow> (Err e, s4)
                     | (None, s4) \<Rightarrow> (Ok (tempDir, pubKey), s4)))))"

text \<open>
  Second: the first application file found in the scratch directory (indexing the empty
  list of application files panics) and its detached signature. The result is the path of
  the verified application file.
\<close>

definition find_and_verify ::
  "world \<Rightarrow> string \<Rightarrow> string \<Rightarrow> state \<Rightarrow> string result \<times> state"
where
  "find_and_verify w tempDir pubKey st =
     (case findAppFiles (cwd w) (fs st) tempDir of
        Inl e \<Rightarrow> (Err e, st)
      | Inr [] \<Rightarrow> (Panic (IndexOutOfRange 0 0), st)
      | Inr (app # others) \<Rightarrow>
          (case verifyGPGSignature w pubKey app (app @ ''.sig'') st of
             (Some e, s1) \<Rightarrow> (Err e, s1)
           | (None, s1) \<Rightarrow> (Ok app, s1)))"

text \<open>Loading the \<^verbatim>\<open>*.tar\<close> files found by the walk; the first failure stops it.\<close>

fun upload_all :: "world \<Rightarrow> (string \<times> string \<times> node) list \<Rightarrow> state \<Rightarrow> error option \<times> state" where
  "upload_all w [] st = (None, st)"
| "upload_all w ((path, name, nd) # rest) st =
     (if nd \<noteq> Dir \<and> strings_HasSuffix name ''.tar'' then
        (case uploadToDocker w path st of
           (Some e, st') \<Rightarrow> (Some e, st')
         | (None, st') \<Rightarrow> upload_all w rest st')
      else upload_all w rest st)"

text \<open>
  Third: the digest is written, an old deployment with a \<^verbatim>\<open>docker-compose.yaml\<close> is
  brought down and removed, the application file is opened, the deployment directory is
  created (an error of \<^verbatim>\<open>os.MkdirAll\<close> is ignored), the application file is extracted
  into it, its images are loaded and it is started.
\<close>

definition teardown_old :: "world \<Rightarrow> string \<Rightarrow> state \<Rightarrow> error option \<times> state" where
  "teardown_old w destDir st =
     (if fileExists (cwd w) (fs st) (path_Join [destDir, ''docker-compose.yaml''])
      then (if compose_down w (trace st) destDir
            then (None, emit (ComposeDown destDir) (st\<lparr>fs := os_RemoveAll (cwd w) (fs st) destDir\<rparr>))
            else (Some ExecError, emit (ComposeDown destDir) st))
      else (None, st))"

definition deploy ::
  "world \<Rightarrow> string \<Rightarrow> string \<Rightarrow> string \<Rightarrow> string \<Rightarrow> string \<Rightarrow> state \<Rightarrow> unit result \<times> state"
where
  "deploy w name destDir hashFile expectedHash app st =
     (case os_WriteFile (cwd w) (fs st) hashFile expectedHash of
        Inl e \<Rightarrow> (Err e, st)
      | Inr f1 \<Rightarrow>
          (case teardown_old w destDir (st\<lparr>fs := f1\<rparr>) of
             (Some e, s1) \<Rightarrow> (Err e, s1)
           | (None, s1) \<Rightarrow>
               (case os_Stat (cwd w) (fs s1) app of
                  Inl e \<Rightarrow> (Err e, s1)
                | Inr Dir \<Rightarrow> (Err EISDIR, s1\<lparr>fs := snd (os_MkdirAll (cwd w) (fs s1) destDir)\<rparr>)
                | Inr (File content) \<Rightarrow>
                    (case unpackTgz w content destDir True
                            (s1\<lparr>fs := snd (os_MkdirAll (cwd w) (fs s1) destDir)\<rparr>) of
                       (Some e, s2) \<Rightarrow> (Err e, s2)
                     | (None, s2) \<Rightarrow>
                         (case filepath_Walk (cwd w) (fs s2) destDir of
                            Inl e \<Rightarrow> (Err e, s2)
                          | Inr visits \<Rightarrow>
                              (case upload_all w visits s2 of
                                 (Some e, s3) \<Rightarrow> (Err e, s3)
                               | (None, s3) \<Rightarrow>
                                   (Ok (), ensureRunning_logged w name destDir s3)))))))"

text \<open>
  Whether the local deployment is up to date: the digest file exists, can be read, and
  holds the expected digest. A digest file that exists and cannot be read is an error.
\<close>

definition check_up_to_date :: "key \<Rightarrow> filesystem \<Rightarrow> string \<Rightarrow> string \<Rightarrow> error + bool" where
  "check_up_to_date wd f hashFile expectedHash =
     (if fileExists wd f hashFile
      then (case read_file wd f hashFile of
              Inl e \<Rightarrow> Inl e
            | Inr actualHash \<Rightarrow> Inr (actualHash = expectedHash))
      else Inr False)"

text \<open>
  The loop body. \<open>Ok\<close> is the end of the iteration (by \<^verbatim>\<open>continue\<close> or by reaching the
  end of the body); \<open>Err\<close> is \<^verbatim>\<open>return err\<close>.
\<close>

definition reconcile_component :: "world \<Rightarrow> string \<Rightarrow> component \<Rightarrow> state \<Rightarrow> unit result \<times> state" where
  "reconcile_component w deployDir deployment st =
     (case expectedHashOf (PackageLocation deployment) of
        Inl p \<Rightarrow>
          (Panic p, st\<lparr>allowedDeployments := (allowedDeployments st)(Name deployment \<mapsto> True)\<rparr>)
      | Inr expectedHash \<Rightarrow>
          (case check_up_to_date (cwd w) (fs st)
                  (path_Join [path_Join [deployDir, Name deployment], ''.hash'']) expectedHash of
             Inl e \<Rightarrow>
               (Err e, st\<lparr>allowedDeployments := (allowedDeployments st)(Name deployment \<mapsto> True)\<rparr>)
           | Inr True \<Rightarrow>
               (Ok (),
                ensureRunning_logged w (Name deployment) (path_Join [deployDir, Name deployment])
                  (emit (LogUpToDate (Name deployment))
                     (st\<lparr>allowedDeployments := (allowedDeployments st)(Name deployment \<mapsto> True)\<rparr>)))
           | Inr False \<Rightarrow>
               (case fetch_and_extract w deployment
                       (st\<lparr>allowedDeployments := (allowedDeployments st)(Name deployment \<mapsto> True)\<rparr>) of
                  (Err e, s1) \<Rightarrow> (Err e, s1)
                | (Panic p, s1) \<Rightarrow> (Panic p, s1)
                | (Ok (tempDir, pubKey), s1) \<Rightarrow>
                    (case find_and_verify w tempDir pubKey s1 of
                       (Err e, s2) \<Rightarrow> (Err e, s2)
                     | (Panic p, s2) \<Rightarrow> (Panic p, s2)
                     | (Ok app, s2) \<Rightarrow>
                         deploy w (Name deployment) (path_Join [deployDir, Name deployment])
                           (path_Join [path_Join [deployDir, Name deployment], ''.hash''])
                           expectedHash app s2))))"

fun reconcile_components :: "world \<Rightarrow> string \<Rightarrow> component list \<Rightarrow> state \<Rightarrow> unit result \<times> state" where
  "reconcile_components w deployDir [] st = (Ok (), st)"
| "reconcile_components w deployDir (deployment # rest) st =
     (case reconcile_component w deployDir deployment st of
        (Ok u, st') \<Rightarrow> reconcile_components w deployDir rest st'
      | (Err e, st') \<Rightarrow> (Err e, st')
      | (Panic p, st') \<Rightarrow> (Panic p, st'))"

text \<open>
  Step 2. The entries of the deployment directory are read once, in the order the file
  system holds them; a deployment directory that cannot be opened or read has none.
\<close>

definition read_dir :: "key \<Rightarrow> filesystem \<Rightarrow> string \<Rightarrow> (string \<times> node) list" where
  "read_dir wd f name =
     (case os_Stat wd f name of
        Inr Dir \<Rightarrow>
          List.map_filter
            (\<lambda>k. case lookup f k of None \<Rightarrow> None | Some nd \<Rightarrow> Some (last k, nd))
            (remdups (filter (\<lambda>k. k \<noteq> [] \<and> butlast k = resolve wd name) (map fst f)))
      | _ \<Rightarrow> [])"

definition purge_one :: "world \<Rightarrow> string \<Rightarrow> string \<Rightarrow> state \<Rightarrow> state" where
  "purge_one w deployDir name st =
     (if compose_down w (trace (emit (LogPurging name) st)) (path_Join [deployDir, name])
      then emit (ComposeDown (path_Join [deployDir, name])) (emit (LogPurging name) st)
      else emit (LogFailedToStop name)
             (emit (ComposeDown (path_Join [deployDir, name])) (emit (LogPurging name) st)))
     \<lparr>fs := os_RemoveAll (cwd w) (fs st) (path_Join [deployDir, name])\<rparr>"

fun purge_entries :: "world \<Rightarrow> string \<Rightarrow> (string \<times> node) list \<Rightarrow> state \<Rightarrow> state" where
  "purge_entries w deployDir [] st = st"
| "purge_entries w deployDir ((name, nd) # rest) st =
     (if nd = Dir \<and> \<not> (case allowedDeployments st name of None \<Rightarrow> False | Some found \<Rightarrow> found)
      then purge_entries w deployDir rest (purge_one w deployDir name st)
      else purge_entries w deployDir rest st)"

definition purge :: "world \<Rightarrow> string \<Rightarrow> state \<Rightarrow> state" where
  "purge w deployDir st = purge_entries w deployDir (read_dir (cwd w) (fs st) deployDir) st"

text \<open>The deferred removals of the scratch directories, last deferred first.\<close>

definition run_deferred :: "world \<Rightarrow> state \<Rightarrow> state" where
  "run_deferred w st =
     st\<lparr>fs := foldl (\<lambda>f d. os_RemoveAll (cwd w) f d) (fs st) (deferred st), deferred := []\<rparr>"

text \<open>
  One pass. Without a manifest nothing is done. The loop ends the pass at the first
  component that returns an error or panics; the purge runs when the loop has run through.
  The deferred removals run in every case.
\<close>

definition reconcileDeployments :: "world \<Rightarrow> string \<Rightarrow> string \<Rightarrow> state \<Rightarrow> unit result \<times> state" where
  "reconcileDeployments w ociRegistry deployDir st =
     (case getAppDeployment w ociRegistry (st\<lparr>deferred := [], allowedDeployments := Map.empty\<rparr>) of
        (Err e, s1) \<Rightarrow> (Err e, s1)
      | (Panic p, s1) \<Rightarrow> (Panic p, s1)
      | (Ok deployments, s1) \<Rightarrow>
          (case reconcile_components w deployDir deployments s1 of
             (Ok u, s2) \<Rightarrow> (Ok (), run_deferred w (purge w deployDir s2))
           | (Err e, s2) \<Rightarrow> (Err e, run_deferred w s2)
           | (Panic p, s2) \<Rightarrow> (Panic p, run_deferred w s2)))"

section \<open>Vocabulary of the properties\<close>

text \<open>
  An entry is hidden when its name begins with a dot, and unsupported when it is neither a
  directory nor a regular file. The extractor skips the hidden entries when told to, and
  the unsupported ones always.
\<close>

definition hidden :: "tar_entry \<Rightarrow> bool" where
  "hidden h = strings_HasPrefix (hdr_Name h) ''.''"

definition unsupported :: "tar_entry \<Rightarrow> bool" where
  "unsupported h = (hdr_Typeflag h \<noteq> TypeDir \<and> hdr_Typeflag h \<noteq> TypeReg)"

definition skipped :: "bool \<Rightarrow> tar_entry \<Rightarrow> bool" where
  "skipped skipHidden h = ((skipHidden \<and> hidden h) \<or> unsupported h)"

text \<open>Two runs of the extractor agree: the same outcome and the same file system.\<close>

definition same_fs :: "error option \<times> state \<Rightarrow> error option \<times> state \<Rightarrow> bool" where
  "same_fs r1 r2 = (fst r1 = fst r2 \<and> fs (snd r1) = fs (snd r2))"

text \<open>A world in which nothing is served and every command succeeds, and a fresh state.\<close>

definition null_world :: world where
  "null_world =
     \<lparr>cwd = [], TempDir = ''/tmp'', nextRandom = (\<lambda>n. ''1''), gunzip_tar = (\<lambda>s. BadGzip),
      ref_New = (\<lambda>r. True), rc_Ping = (\<lambda>h r. True), rc_ManifestGet = (\<lambda>h r. None),
      rc_BlobGet = (\<lambda>h r d. None), yaml_Unmarshal = (\<lambda>b. None),
      ReadArmoredKeyRing = (\<lambda>k. True), CheckDetachedSignature = (\<lambda>k d s. False),
      compose_ps = (\<lambda>h d. Some []), compose_up = (\<lambda>h d. True), compose_down = (\<lambda>h d. True),
      docker_NewClient = True, docker_ImageLoad = (\<lambda>h p. True)\<rparr>"

definition entry :: "string \<Rightarrow> char \<Rightarrow> string \<Rightarrow> tar_entry" where
  "entry n t b = \<lparr>hdr_Name = n, hdr_Typeflag = t, hdr_Mode = 420, Body = b, Truncated = False\<rparr>"

definition start :: "filesystem \<Rightarrow> state" where
  "start f = \<lparr>fs = f, trace = [], deferred = [], draws = 0, allowedDeployments = Map.empty\<rparr>"

text \<open>
  An archive with a hidden file, a symbolic link, a directory and a regular file in it.
\<close>

definition secret_world :: world where
  "secret_world = null_world\<lparr>gunzip_tar := (\<lambda>s. Tar [entry ''.secret'' TypeReg ''key'',
      entry ''link'' (CHR ''2'') [], entry ''sub'' TypeDir [], entry ''sub/a.txt'' TypeReg ''hello''] True)\<rparr>"

text \<open>An archive whose only entry climbs out of the directory it is extracted into.\<close>

definition evil_world :: world where
  "evil_world = null_world\<lparr>gunzip_tar := (\<lambda>s. Tar [\<lparr>hdr_Name = ''x/../../evil'',
      hdr_Typeflag = TypeReg, hdr_Mode = 420, Body = ''pwned'', Truncated = False\<rparr>] True)\<rparr>"

definition layer0 :: descriptor where
  "layer0 = \<lparr>MediaType = ''application/vnd.margo.desired-state.v1+yaml'', Digest = ''sha256:00''\<rparr>"

definition mk_component :: "string \<Rightarrow> string \<Rightarrow> string \<Rightarrow> component" where
  "mk_component n k p = \<lparr>Name = n, KeyLocation = ''http://ghcr.io/v2/o/r/blobs/sha256:'' @ k,
                 PackageLocation = ''http://ghcr.io/v2/o/r/blobs/sha256:'' @ p\<rparr>"

text \<open>
  A registry that serves a manifest, the key \<open>cc\<close> and the package \<open>bb\<close>, which holds a
  signed application file with a \<^verbatim>\<open>docker-compose.yaml\<close> in it.
\<close>

definition registry :: "component list \<Rightarrow> world" where
  "registry cs = null_world
     \<lparr>gunzip_tar := (\<lambda>s. if s = ''PKG-B''
                          then Tar [entry ''b.app'' TypeReg ''APP-B'', entry ''b.app.sig'' TypeReg ''SIG-B''] True
                          else if s = ''APP-B''
                          then Tar [entry ''docker-compose.yaml'' TypeReg ''services''] True
                          else BadGzip),
      rc_ManifestGet := (\<lambda>h r. Some (Imager [layer0])),
      rc_BlobGet := (\<lambda>h r d. if d = ''sha256:00'' then Some ''MANIFEST''
                               else if d = ''sha256:bb'' then Some ''PKG-B''
                               else if d = ''sha256:cc'' then Some ''KEY'' else None),
      yaml_Unmarshal := (\<lambda>b. Some cs),
      CheckDetachedSignature := (\<lambda>k d s. k = ''KEY'' \<and> d = ''APP-B'' \<and> s = ''SIG-B'')\<rparr>"

text \<open>
  Component \<open>A\<close>, whose key the registry does not have, before component \<open>B\<close>; locally
  a stale \<open>B\<close> and a directory \<open>C\<close> that the manifest does not name.
\<close>

definition iso_world :: world where
  "iso_world = registry [mk_component ''A'' ''ee'' ''aa'', mk_component ''B'' ''cc'' ''bb'']"

definition iso_fs :: filesystem where
  "iso_fs = [([''tmp''], Dir), ([''deploy''], Dir), ([''deploy'', ''B''], Dir),
             ([''deploy'', ''B'', ''.hash''], File ''old''), ([''deploy'', ''C''], Dir)]"

text \<open>A component whose package location carries no digest.\<close>

definition nodigest :: component where
  "nodigest = \<lparr>Name = ''A'', KeyLocation = ''http://ghcr.io/v2/o/r/blobs/sha256:cc'',
                PackageLocation = ''http://ghcr.io/v2/o/r/blobs/aa''\<rparr>"

text \<open>
  Component \<open>A\<close> deployed with the digest of the manifest, component \<open>B\<close> with no
  directory at all.
\<close>

definition conv_world :: world where
  "conv_world = registry [mk_component ''A'' ''cc'' ''aa'', mk_component ''B'' ''cc'' ''bb'']"

definition conv_fs :: filesystem where
  "conv_fs = [([''tmp''], Dir), ([''deploy''], Dir), ([''deploy'', ''A''], Dir),
              ([''deploy'', ''A'', ''.hash''], File ''aa'')]"

text \<open>
  Component \<open>B\<close> deployed with an older digest and a \<^verbatim>\<open>docker-compose.yaml\<close>.
\<close>

definition reapply_world :: world where
  "reapply_world = registry [mk_component ''B'' ''cc'' ''bb'']"

definition reapply_fs :: filesystem where
  "reapply_fs = [([''tmp''], Dir), ([''deploy''], Dir), ([''deploy'', ''B''], Dir),
                 ([''deploy'', ''B'', ''.hash''], File ''old''),
                 ([''deploy'', ''B'', ''docker-compose.yaml''], File ''old services'')]"

text \<open>
  The fetches of blobs from the registry; a component whose stored digest file is there
  and holds the digest of its package location; two states of a pass with the same file
  system, the same deferred removals and the same fetches.
\<close>

fun is_fetch :: "event \<Rightarrow> bool" where
  "is_fetch (BlobGet r d) = True"
| "is_fetch e = False"

definition current :: "key \<Rightarrow> filesystem \<Rightarrow> string \<Rightarrow> component \<Rightarrow> bool" where
  "current wd f deployDir c =
     (case expectedHashOf (PackageLocation c) of
        Inl p \<Rightarrow> False
      | Inr h \<Rightarrow> read_file wd f (path_Join [path_Join [deployDir, Name c], ''.hash'']) = Inr h)"

definition quiet :: "state \<Rightarrow> state \<Rightarrow> bool" where
  "quiet s s' =
     (fs s' = fs s \<and> deferred s' = deferred s \<and>
      filter is_fetch (trace s') = filter is_fetch (trace s))"

text \<open>Components \<open>A\<close> and \<open>B\<close>, both deployed with the digests of the manifest.\<close>

definition idem_world :: world where
  "idem_world = registry [mk_component ''A'' ''cc'' ''aa'', mk_component ''B'' ''cc'' ''bb'']"

definition idem_fs :: filesystem where
  "idem_fs = [([''tmp''], Dir), ([''deploy''], Dir), ([''deploy'', ''A''], Dir),
              ([''deploy'', ''A'', ''.hash''], File ''aa''), ([''deploy'', ''B''], Dir),
              ([''deploy'', ''B'', ''.hash''], File ''bb''),
              ([''deploy'', ''B'', ''docker-compose.yaml''], File ''services'')]"

text \<open>
  A name that is one component of a path; the invariant of the stack of \<^verbatim>\<open>path.Clean\<close>;
  a file system all of whose components are such names; a name recorded as allowed.
\<close>

definition simple_name :: "string \<Rightarrow> bool" where
  "simple_name n = (n \<noteq> [] \<and> n \<noteq> ''.'' \<and> n \<noteq> ''..'' \<and> CHR ''/'' \<notin> set n)"

definition clean_inv :: "bool \<Rightarrow> string list \<Rightarrow> bool" where
  "clean_inv r st =
     (list_all (\<lambda>x. x \<noteq> [] \<and> x \<noteq> ''.'' \<and> CHR ''/'' \<notin> set x) st \<and> (r \<longrightarrow> ''..'' \<notin> set st))"

definition names_ok :: "filesystem \<Rightarrow> bool" where
  "names_ok f = list_all (list_all simple_name) (map fst f)"

definition is_allowed :: "state \<Rightarrow> string \<Rightarrow> bool" where
  "is_allowed st name = (case allowedDeployments st name of None \<Rightarrow> False | Some found \<Rightarrow> found)"

text \<open>
  Components \<open>A\<close> and \<open>B\<close> deployed with the digests of the manifest, and a directory
  \<open>C\<close> that the manifest does not name.
\<close>

definition purge_fs :: filesystem where
  "purge_fs = idem_fs @ [([''deploy'', ''C''], Dir),
                         ([''deploy'', ''C'', ''docker-compose.yaml''], File ''old services'')]"

section \<open>The archive extractor: skipped entries\<close>

lemma fs_emit [simp]: "fs (emit e st) = fs st"
  by (simp add: emit_def)

lemma unpack_Cons_hidden:
  "sk \<Longrightarrow> hidden h \<Longrightarrow>
   unpack_entries wd d sk (h # rest) eof st =
   unpack_entries wd d sk rest eof (emit (LogSkipHidden (hdr_Name h)) st)"
  by (simp add: hidden_def)

lemma unpack_Cons_unsupported:
  "\<not> (sk \<and> hidden h) \<Longrightarrow> unsupported h \<Longrightarrow>
   unpack_entries wd d sk (h # rest) eof st =
   unpack_entries wd d sk rest eof (emit (LogSkipUnsupported (hdr_Typeflag h)) st)"
  by (auto simp add: hidden_def unsupported_def)

lemma unpack_Cons_dir:
  "\<not> (sk \<and> hidden h) \<Longrightarrow> hdr_Typeflag h = TypeDir \<Longrightarrow>
   unpack_entries wd d sk (h # rest) eof st =
   (case os_MkdirAll wd (fs st) (path_Join [d, hdr_Name h]) of
      (Some e, f) \<Rightarrow> (Some e, st\<lparr>fs := f\<rparr>)
    | (None, f) \<Rightarrow> unpack_entries wd d sk rest eof (st\<lparr>fs := f\<rparr>))"
  by (auto simp add: hidden_def)

lemma unpack_Cons_reg:
  "\<not> (sk \<and> hidden h) \<Longrightarrow> hdr_Typeflag h \<noteq> TypeDir \<Longrightarrow> hdr_Typeflag h = TypeReg \<Longrightarrow>
   unpack_entries wd d sk (h # rest) eof st =
   (case open_create wd (fs st) (path_Join [d, hdr_Name h]) of
      Inl e \<Rightarrow> (Some e, st)
    | Inr (k, old) \<Rightarrow>
        if Truncated h
        then (Some ReadError, st\<lparr>fs := put (fs st) k (File (overwrite old (Body h)))\<rparr>)
        else unpack_entries wd d sk rest eof
               (st\<lparr>fs := put (fs st) k (File (overwrite old (Body h)))\<rparr>))"
  by (auto simp add: hidden_def)

lemma entry_cases:
  obtains "sk \<and> hidden h"
  | "\<not> (sk \<and> hidden h)" "unsupported h"
  | "\<not> (sk \<and> hidden h)" "hdr_Typeflag h = TypeDir"
  | "\<not> (sk \<and> hidden h)" "hdr_Typeflag h \<noteq> TypeDir" "hdr_Typeflag h = TypeReg"
  unfolding unsupported_def by blast

lemma unpack_entries_fs_only:
  "fs st1 = fs st2 \<Longrightarrow>
   same_fs (unpack_entries wd d sk es eof st1) (unpack_entries wd d sk es eof st2)"
proof (induction es arbitrary: st1 st2)
  case Nil
  then show ?case by (simp add: same_fs_def)
next
  case (Cons h rest)
  note eq = Cons.prems
  show ?case
  proof (cases rule: entry_cases[of sk h])
    case 1
    then show ?thesis
      using Cons.IH[of "emit (LogSkipHidden (hdr_Name h)) st1" "emit (LogSkipHidden (hdr_Name h)) st2"] eq
      by (simp add: unpack_Cons_hidden del: unpack_entries.simps)
  next
    case 2
    then show ?thesis
      using Cons.IH[of "emit (LogSkipUnsupported (hdr_Typeflag h)) st1" "emit (LogSkipUnsupported (hdr_Typeflag h)) st2"] eq
      by (simp add: unpack_Cons_unsupported del: unpack_entries.simps)
  next
    case 3
    obtain r f where m: "os_MkdirAll wd (fs st2) (path_Join [d, hdr_Name h]) = (r, f)"
      by (cases "os_MkdirAll wd (fs st2) (path_Join [d, hdr_Name h])")
    show ?thesis
      using 3 eq m Cons.IH[of "st1\<lparr>fs := f\<rparr>" "st2\<lparr>fs := f\<rparr>"]
      by (cases r) (simp_all add: unpack_Cons_dir same_fs_def del: unpack_entries.simps)
  next
    case 4
    show ?thesis
    proof (cases "open_create wd (fs st2) (path_Join [d, hdr_Name h])")
      case (Inl e)
      then show ?thesis using 4 eq
        by (simp add: unpack_Cons_reg same_fs_def del: unpack_entries.simps)
    next
      case (Inr ko)
      obtain k old where ko: "ko = (k, old)" by (cases ko)
      show ?thesis
        using 4 eq Inr ko
          Cons.IH[of "st1\<lparr>fs := put (fs st2) k (File (overwrite old (Body h)))\<rparr>"
                     "st2\<lparr>fs := put (fs st2) k (File (overwrite old (Body h)))\<rparr>"]
        by (simp add: unpack_Cons_reg same_fs_def del: unpack_entries.simps)
    qed
  qed
qed

lemma same_fs_trans: "same_fs a b \<Longrightarrow> same_fs b c \<Longrightarrow> same_fs a c"
  by (simp add: same_fs_def)

lemma same_fs_refl: "same_fs a a"
  by (simp add: same_fs_def)

lemma unpack_entries_skip:
  assumes "skipped sk h"
  shows "same_fs (unpack_entries wd d sk (h # rest) eof st) (unpack_entries wd d sk rest eof st)"
proof (cases "sk \<and> hidden h")
  case True
  then show ?thesis
    using unpack_entries_fs_only[of "emit (LogSkipHidden (hdr_Name h)) st" st wd d sk rest eof]
    by (simp add: unpack_Cons_hidden del: unpack_entries.simps)
next
  case False
  then have "unsupported h" using assms by (auto simp add: skipped_def)
  then show ?thesis
    using False unpack_entries_fs_only[of "emit (LogSkipUnsupported (hdr_Typeflag h)) st" st wd d sk rest eof]
    by (simp add: unpack_Cons_unsupported del: unpack_entries.simps)
qed

lemma unpack_entries_filter:
  "same_fs (unpack_entries wd d sk es eof st)
     (unpack_entries wd d sk (filter (\<lambda>h. \<not> skipped sk h) es) eof st)"
proof (induction es arbitrary: st)
  case Nil
  then show ?case by (simp add: same_fs_def)
next
  case (Cons h rest)
  show ?case
  proof (cases "skipped sk h")
    case True
    then show ?thesis
      using same_fs_trans[OF unpack_entries_skip[OF True] Cons.IH]
      by (simp del: unpack_entries.simps)
  next
    case False
    then have ns: "\<not> (sk \<and> hidden h)" and sup: "\<not> unsupported h"
      by (simp_all add: skipped_def)
    show ?thesis
    proof (cases "hdr_Typeflag h = TypeDir")
      case True
      obtain r f where m: "os_MkdirAll wd (fs st) (path_Join [d, hdr_Name h]) = (r, f)"
        by (cases "os_MkdirAll wd (fs st) (path_Join [d, hdr_Name h])")
      show ?thesis
        using False ns True m Cons.IH[of "st\<lparr>fs := f\<rparr>"]
        by (cases r) (simp_all add: unpack_Cons_dir same_fs_def del: unpack_entries.simps)
    next
      case nd: False
      then have reg: "hdr_Typeflag h = TypeReg" using sup by (simp add: unsupported_def)
      show ?thesis
      proof (cases "open_create wd (fs st) (path_Join [d, hdr_Name h])")
        case (Inl e)
        then show ?thesis using False ns nd reg
          by (simp add: unpack_Cons_reg same_fs_def del: unpack_entries.simps)
      next
        case (Inr ko)
        obtain k old where ko: "ko = (k, old)" by (cases ko)
        show ?thesis
          using False ns nd reg Inr ko
            Cons.IH[of "st\<lparr>fs := put (fs st) k (File (overwrite old (Body h)))\<rparr>"]
          by (simp add: unpack_Cons_reg same_fs_def del: unpack_entries.simps)
      qed
    qed
  qed
qed

text \<open>
  C7. Extraction with the skip-hidden flag set: an entry whose name begins with a dot
  produces nothing but a logged warning, and the extraction goes on with the entries
  after it; so does an entry that is neither a directory nor a regular file. The outcome
  and the resulting file system are those of extracting the archive without the skipped
  entries, so all other entries are extracted as they would be without them, and an
  archive of skipped entries alone is extracted without an error and without a change.
\<close>

theorem unpackTgz_skips:
  "(hidden h \<longrightarrow>
      unpack_entries wd d True (h # rest) eof st =
      unpack_entries wd d True rest eof (emit (LogSkipHidden (hdr_Name h)) st)) \<and>
   (\<not> hidden h \<and> unsupported h \<longrightarrow>
      unpack_entries wd d True (h # rest) eof st =
      unpack_entries wd d True rest eof (emit (LogSkipUnsupported (hdr_Typeflag h)) st)) \<and>
   (gunzip_tar w src = Tar es eof2 \<longrightarrow>
      same_fs (unpackTgz w src d True st2)
        (unpack_entries (cwd w) d True (filter (\<lambda>h. \<not> skipped True h) es) eof2 st2)) \<and>
   (gunzip_tar w src = Tar es True \<and> list_all (skipped True) es \<longrightarrow>
      fst (unpackTgz w src d True st2) = None \<and> fs (snd (unpackTgz w src d True st2)) = fs st2)"
proof (intro conjI impI)
  assume "hidden h"
  then show "unpack_entries wd d True (h # rest) eof st =
      unpack_entries wd d True rest eof (emit (LogSkipHidden (hdr_Name h)) st)"
    by (simp add: unpack_Cons_hidden del: unpack_entries.simps)
next
  assume "\<not> hidden h \<and> unsupported h"
  then show "unpack_entries wd d True (h # rest) eof st =
      unpack_entries wd d True rest eof (emit (LogSkipUnsupported (hdr_Typeflag h)) st)"
    by (simp add: unpack_Cons_unsupported del: unpack_entries.simps)
next
  assume "gunzip_tar w src = Tar es eof2"
  then show "same_fs (unpackTgz w src d True st2)
        (unpack_entries (cwd w) d True (filter (\<lambda>h. \<not> skipped True h) es) eof2 st2)"
    using unpack_entries_filter[of "cwd w" d True es eof2 st2] by (simp add: unpackTgz_def)
next
  assume a: "gunzip_tar w src = Tar es True \<and> list_all (skipped True) es"
  then have "filter (\<lambda>h. \<not> skipped True h) es = []"
    by (simp add: list_all_iff filter_empty_conv)
  then have "same_fs (unpackTgz w src d True st2) (None, st2)"
    using a unpack_entries_filter[of "cwd w" d True es True st2] by (simp add: unpackTgz_def)
  then show "fst (unpackTgz w src d True st2) = None"
    by (simp add: same_fs_def)
next
  assume a: "gunzip_tar w src = Tar es True \<and> list_all (skipped True) es"
  then have "filter (\<lambda>h. \<not> skipped True h) es = []"
    by (simp add: list_all_iff filter_empty_conv)
  then have "same_fs (unpackTgz w src d True st2) (None, st2)"
    using a unpack_entries_filter[of "cwd w" d True es True st2] by (simp add: unpackTgz_def)
  then show "fs (snd (unpackTgz w src d True st2)) = fs st2"
    by (simp add: same_fs_def)
qed

theorem unpackTgz_skips_example:
  "hidden (entry ''.secret'' TypeReg ''key'') \<and>
   unsupported (entry ''link'' (CHR ''2'') []) \<and>
   fst (unpackTgz secret_world ''x'' ''/d'' True (start [([''d''], Dir)])) = None \<and>
   fs (snd (unpackTgz secret_world ''x'' ''/d'' True (start [([''d''], Dir)]))) =
     [([''d''], Dir), ([''d'', ''sub''], Dir), ([''d'', ''sub'', ''a.txt''], File ''hello'')]"
proof -
  have g: "gunzip_tar secret_world ''x'' =
      Tar [entry ''.secret'' TypeReg ''key'', entry ''link'' (CHR ''2'') [],
           entry ''sub'' TypeDir [], entry ''sub/a.txt'' TypeReg ''hello''] True"
    by (simp add: secret_world_def null_world_def)
  have h: "hidden (entry ''.secret'' TypeReg ''key'')"
    by code_simp
  have u: "unsupported (entry ''link'' (CHR ''2'') [])"
    by code_simp
  have k: "filter (\<lambda>h. \<not> skipped True h)
      [entry ''.secret'' TypeReg ''key'', entry ''link'' (CHR ''2'') [],
       entry ''sub'' TypeDir [], entry ''sub/a.txt'' TypeReg ''hello''] =
      [entry ''sub'' TypeDir [], entry ''sub/a.txt'' TypeReg ''hello'']"
    by code_simp
  have c: "cwd secret_world = []"
    by (simp add: secret_world_def null_world_def)
  have e: "fst (unpack_entries [] ''/d'' True
      [entry ''sub'' TypeDir [], entry ''sub/a.txt'' TypeReg ''hello''] True (start [([''d''], Dir)])) = None \<and>
    fs (snd (unpack_entries [] ''/d'' True
      [entry ''sub'' TypeDir [], entry ''sub/a.txt'' TypeReg ''hello''] True (start [([''d''], Dir)]))) =
      [([''d''], Dir), ([''d'', ''sub''], Dir), ([''d'', ''sub'', ''a.txt''], File ''hello'')]"
    by code_simp
  have "fst (unpackTgz secret_world ''x'' ''/d'' True (start [([''d''], Dir)])) = None \<and>
    fs (snd (unpackTgz secret_world ''x'' ''/d'' True (start [([''d''], Dir)]))) =
      [([''d''], Dir), ([''d'', ''sub''], Dir), ([''d'', ''sub'', ''a.txt''], File ''hello'')]"
    using unpackTgz_skips[where w = secret_world and src = "''x''" and d = "''/d''"
        and ?st2.0 = "start [([''d''], Dir)]" and ?eof2.0 = True and h = "entry ''.secret'' TypeReg ''key''"
        and es = "[entry ''.secret'' TypeReg ''key'', entry ''link'' (CHR ''2'') [],
           entry ''sub'' TypeDir [], entry ''sub/a.txt'' TypeReg ''hello'']"] g k c e
    by (simp add: same_fs_def)
  then show ?thesis using h u by simp
qed

section \<open>The archive extractor: entries that leave the destination\<close>

text \<open>
  C8. The extractor neither rejects nor sanitizes an entry name that leaves the
  destination directory: extracted into \<open>/tmp/d\<close>, the regular file \<open>x/../../evil\<close>
  has the target \<open>/tmp/evil\<close>, which is not below \<open>/tmp/d\<close>, and it is written there.
\<close>

theorem unpackTgz_path_traversal:
  assumes "gunzip_tar w src =
             Tar [\<lparr>hdr_Name = ''x/../../evil'', hdr_Typeflag = TypeReg, hdr_Mode = m,
                   Body = b, Truncated = False\<rparr>] True"
    and "lookup (fs st) [''tmp''] = Some Dir"
    and "lookup (fs st) [''tmp'', ''evil''] = None"
  shows "path_Join [''/tmp/d'', ''x/../../evil''] = ''/tmp/evil'' \<and>
         \<not> prefix (resolve (cwd w) ''/tmp/d'') (resolve (cwd w) ''/tmp/evil'') \<and>
         unpackTgz w src ''/tmp/d'' skipHidden st =
           (None, st\<lparr>fs := put (fs st) [''tmp'', ''evil''] (File b)\<rparr>)"
proof -
  have j: "path_Join [''/tmp/d'', ''x/../../evil''] = ''/tmp/evil''"
    by code_simp
  have r1: "resolve (cwd w) ''/tmp/d'' = [''tmp'', ''d'']"
    by (simp add: resolve_def rooted_def walk_step_def)
  have r2: "resolve (cwd w) ''/tmp/evil'' = [''tmp'', ''evil'']"
    by (simp add: resolve_def rooted_def walk_step_def)
  have nh: "\<not> strings_HasPrefix ''x/../../evil'' ''.''"
    by (simp add: strings_HasPrefix_def)
  have oc: "open_create (cwd w) (fs st) ''/tmp/evil'' = Inr ([''tmp'', ''evil''], [])"
    using assms(2,3) r2 by (simp add: open_create_def)
  have "TypeReg \<noteq> TypeDir" by (simp add: TypeReg_def TypeDir_def)
  then show ?thesis
    using assms(1) j r1 r2 nh oc by (simp add: unpackTgz_def overwrite_def)
qed


theorem unpackTgz_path_traversal_example:
  "lookup (fs (start [([''tmp''], Dir), ([''tmp'', ''d''], Dir)])) [''tmp''] = Some Dir \<and>
   lookup (fs (start [([''tmp''], Dir), ([''tmp'', ''d''], Dir)])) [''tmp'', ''evil''] = None \<and>
   fst (unpackTgz evil_world ''x'' ''/tmp/d'' True (start [([''tmp''], Dir), ([''tmp'', ''d''], Dir)])) = None \<and>
   fs (snd (unpackTgz evil_world ''x'' ''/tmp/d'' True (start [([''tmp''], Dir), ([''tmp'', ''d''], Dir)]))) =
     [([''tmp''], Dir), ([''tmp'', ''d''], Dir), ([''tmp'', ''evil''], File ''pwned'')]"
proof -
  have g: "gunzip_tar evil_world ''x'' =
      Tar [\<lparr>hdr_Name = ''x/../../evil'', hdr_Typeflag = TypeReg, hdr_Mode = 420,
            Body = ''pwned'', Truncated = False\<rparr>] True"
    by (simp add: evil_world_def null_world_def)
  have a: "lookup (fs (start [([''tmp''], Dir), ([''tmp'', ''d''], Dir)])) [''tmp''] = Some Dir"
    by (simp add: start_def lookup_def)
  have b: "lookup (fs (start [([''tmp''], Dir), ([''tmp'', ''d''], Dir)])) [''tmp'', ''evil''] = None"
    by (simp add: start_def lookup_def)
  have p: "put (fs (start [([''tmp''], Dir), ([''tmp'', ''d''], Dir)])) [''tmp'', ''evil''] (File ''pwned'') =
      [([''tmp''], Dir), ([''tmp'', ''d''], Dir), ([''tmp'', ''evil''], File ''pwned'')]"
    by (simp add: start_def put_def)
  show ?thesis
    using unpackTgz_path_traversal[OF g a b, of True] a b p by simp
qed

section \<open>The loop: where a pass ends\<close>

lemma reconcile_components_append:
  "reconcile_components w dd pre s1 = (Ok (), s2) \<Longrightarrow>
   reconcile_components w dd (pre @ rest) s1 = reconcile_components w dd rest s2"
proof (induction pre arbitrary: s1)
  case Nil
  then show ?case by simp
next
  case (Cons c pre)
  obtain r s where rc: "reconcile_component w dd c s1 = (r, s)"
    by (cases "reconcile_component w dd c s1")
  show ?case
  proof (cases r)
    case (Ok u)
    then show ?thesis using Cons rc by simp
  next
    case (Err e)
    then show ?thesis using Cons.prems rc by simp
  next
    case (Panic p)
    then show ?thesis using Cons.prems rc by simp
  qed
qed

lemma reconcile_components_stop:
  assumes "reconcile_components w dd pre s1 = (Ok (), s2)"
    and "reconcile_component w dd c s2 = (r, s3)"
    and "r \<noteq> Ok ()"
  shows "reconcile_components w dd (pre @ c # post) s1 = (r, s3)"
proof -
  have "reconcile_components w dd (c # post) s2 = (r, s3)"
    using assms(2,3) by (cases r) simp_all
  then show ?thesis using reconcile_components_append[OF assms(1)] by simp
qed

lemma reconcileDeployments_stop:
  assumes "getAppDeployment w reg (st\<lparr>deferred := [], allowedDeployments := Map.empty\<rparr>) =
             (Ok (pre @ c # post), s1)"
    and "reconcile_components w dd pre s1 = (Ok (), s2)"
    and "reconcile_component w dd c s2 = (r, s3)"
    and "r \<noteq> Ok ()"
  shows "reconcileDeployments w reg dd st = (r, run_deferred w s3)"
  using assms(1) reconcile_components_stop[OF assms(2,3,4), of post] assms(4)
  by (cases r) (simp_all add: reconcileDeployments_def)

text \<open>
  C1, as the code has it. The claim is that a failure in the pipeline of one component
  ends the processing of that component only, that the later components are still
  processed and that the purge still runs. In the code every failure of the pipeline is
  a \<^verbatim>\<open>return err\<close> out of the whole function. With \<open>A\<close> before \<open>B\<close> in the
  manifest and the key of \<open>A\<close> missing from the registry, the pass returns the error of
  \<open>A\<close>, logs nothing about \<open>B\<close>, leaves the stale \<open>B\<close> as it was and does not purge
  \<open>C\<close>. With \<open>B\<close> alone in the manifest the same registry and file system give a pass
  that applies \<open>B\<close> and purges \<open>C\<close>.
\<close>

theorem failure_isolation_counterexample:
  "fst (reconcileDeployments iso_world ''reg'' ''/deploy'' (start iso_fs)) = Err RegistryError \<and>
   fs (snd (reconcileDeployments iso_world ''reg'' ''/deploy'' (start iso_fs))) = iso_fs \<and>
   trace (snd (reconcileDeployments iso_world ''reg'' ''/deploy'' (start iso_fs))) =
     [Ping ''reg'', ManifestGet ''reg'', BlobGet ''reg'' ''sha256:00'', LogFetching ''A'',
      LogDownloading ''http://ghcr.io/v2/o/r/blobs/sha256:ee'',
      BlobGet ''ghcr.io/o/r:latest'' ''sha256:ee''] \<and>
   fst (reconcileDeployments (registry [mk_component ''B'' ''cc'' ''bb'']) ''reg'' ''/deploy'' (start iso_fs)) =
     Ok () \<and>
   fs (snd (reconcileDeployments (registry [mk_component ''B'' ''cc'' ''bb'']) ''reg'' ''/deploy'' (start iso_fs))) =
     [([''tmp''], Dir), ([''deploy''], Dir), ([''deploy'', ''B''], Dir),
      ([''deploy'', ''B'', ''.hash''], File ''bb''),
      ([''deploy'', ''B'', ''docker-compose.yaml''], File ''services'')]"
  by code_simp

text \<open>
  C1, amended. When the loop body returns an error for a component, the pass returns
  that error at once: the state of the pass is the state at the failure with the scratch
  directories removed, whatever components follow in the manifest, so no later component
  is processed and the purge does not run; no event follows the failure.
\<close>

theorem failure_aborts_pass:
  assumes "getAppDeployment w reg (st\<lparr>deferred := [], allowedDeployments := Map.empty\<rparr>) =
             (Ok (pre @ c # post), s1)"
    and "reconcile_components w dd pre s1 = (Ok (), s2)"
    and "reconcile_component w dd c s2 = (Err e, s3)"
  shows "reconcileDeployments w reg dd st = (Err e, run_deferred w s3) \<and>
         trace (run_deferred w s3) = trace s3 \<and>
         fs (run_deferred w s3) = foldl (\<lambda>f d. os_RemoveAll (cwd w) f d) (fs s3) (deferred s3)"
  using reconcileDeployments_stop[OF assms(1,2,3)] by (simp add: run_deferred_def)

theorem failure_aborts_pass_example:
  "fst (getAppDeployment iso_world ''reg''
          ((start iso_fs)\<lparr>deferred := [], allowedDeployments := Map.empty\<rparr>)) =
     Ok [mk_component ''A'' ''ee'' ''aa'', mk_component ''B'' ''cc'' ''bb''] \<and>
   fst (reconcile_component iso_world ''/deploy'' (mk_component ''A'' ''ee'' ''aa'')
          (snd (getAppDeployment iso_world ''reg''
                  ((start iso_fs)\<lparr>deferred := [], allowedDeployments := Map.empty\<rparr>)))) =
     Err RegistryError \<and>
   reconcileDeployments iso_world ''reg'' ''/deploy'' (start iso_fs) =
     (Err RegistryError,
      run_deferred iso_world
        (snd (reconcile_component iso_world ''/deploy'' (mk_component ''A'' ''ee'' ''aa'')
               (snd (getAppDeployment iso_world ''reg''
                       ((start iso_fs)\<lparr>deferred := [], allowedDeployments := Map.empty\<rparr>))))))"
proof -
  let ?g = "getAppDeployment iso_world ''reg''
              ((start iso_fs)\<lparr>deferred := [], allowedDeployments := Map.empty\<rparr>)"
  let ?c = "reconcile_component iso_world ''/deploy'' (mk_component ''A'' ''ee'' ''aa'') (snd ?g)"
  have g1: "fst ?g = Ok [mk_component ''A'' ''ee'' ''aa'', mk_component ''B'' ''cc'' ''bb'']"
    by code_simp
  have g: "?g = (Ok ([] @ mk_component ''A'' ''ee'' ''aa'' # [mk_component ''B'' ''cc'' ''bb'']), snd ?g)"
    using g1 by (simp add: prod_eq_iff)
  have l: "reconcile_components iso_world ''/deploy'' [] (snd ?g) = (Ok (), snd ?g)"
    by simp
  have c1: "fst ?c = Err RegistryError"
    by code_simp
  have c: "?c = (Err RegistryError, snd ?c)"
    using c1 by (simp add: prod_eq_iff)
  show ?thesis
    using failure_aborts_pass[OF g l c] g1 c1 by simp
qed

section \<open>The expected digest\<close>

lemma split_acc_no_sep:
  "sep \<noteq> [] \<Longrightarrow> \<not> sublist sep s \<Longrightarrow> split_acc sep acc s = [acc @ s]"
proof (induction sep acc s rule: split_acc.induct)
  case (1 sep acc)
  then show ?case by simp
next
  case (2 sep acc x xs)
  from "2.prems"(2) have np: "\<not> prefix sep (x # xs)" and ns: "\<not> sublist sep xs"
    by (simp_all add: sublist_Cons_right)
  show ?case using "2.IH"(2) "2.prems"(1) np ns by simp
qed

lemma split_acc_nonempty: "split_acc sep acc s \<noteq> []"
  by (induction sep acc s rule: split_acc.induct) auto

lemma split_acc_sep:
  "sep \<noteq> [] \<Longrightarrow> sublist sep s \<Longrightarrow> 1 < length (split_acc sep acc s)"
proof (induction sep acc s rule: split_acc.induct)
  case (1 sep acc)
  then show ?case by simp
next
  case (2 sep acc x xs)
  show ?case
  proof (cases "prefix sep (x # xs)")
    case True
    then show ?thesis
      using "2.prems"(1) split_acc_nonempty[of sep "[]" "drop (length sep) (x # xs)"]
      by (cases "split_acc sep [] (drop (length sep) (x # xs))") simp_all
  next
    case False
    then have "sublist sep xs" using "2.prems"(2) by (simp add: sublist_Cons_right)
    then show ?thesis using "2.IH"(2) "2.prems"(1) False by simp
  qed
qed

lemma expectedHashOf_panics:
  "\<not> sublist ''sha256:'' loc \<Longrightarrow> expectedHashOf loc = Inl (IndexOutOfRange 1 1)"
  by (simp add: expectedHashOf_def strings_Split_def split_acc_no_sep)

lemma expectedHashOf_total:
  "sublist ''sha256:'' loc \<Longrightarrow> \<exists>h. expectedHashOf loc = Inr h"
  using split_acc_sep[of "''sha256:''" loc "[]"]
  by (simp add: expectedHashOf_def strings_Split_def)

text \<open>
  C9. A package location without the substring \<open>sha256:\<close> splits into one piece, so
  that taking element 1 panics with an index out of range: the loop body panics for such
  a component in every state, and so does the pass, once the manifest is there and the
  loop reaches the component. Nothing catches the panic and no error is returned instead.
\<close>

theorem missing_digest_panics:
  assumes "\<not> sublist ''sha256:'' (PackageLocation c)"
  shows "expectedHashOf (PackageLocation c) = Inl (IndexOutOfRange 1 1) \<and>
         fst (reconcile_component w dd c s) = Panic (IndexOutOfRange 1 1) \<and>
         (getAppDeployment w reg (st\<lparr>deferred := [], allowedDeployments := Map.empty\<rparr>) =
            (Ok (pre @ c # post), s1) \<and>
          reconcile_components w dd pre s1 = (Ok (), s2) \<longrightarrow>
          fst (reconcileDeployments w reg dd st) = Panic (IndexOutOfRange 1 1))"
proof -
  have e: "expectedHashOf (PackageLocation c) = Inl (IndexOutOfRange 1 1)"
    using assms by (rule expectedHashOf_panics)
  have rc: "\<And>s. fst (reconcile_component w dd c s) = Panic (IndexOutOfRange 1 1)"
    using e by (simp add: reconcile_component_def)
  have "fst (reconcileDeployments w reg dd st) = Panic (IndexOutOfRange 1 1)"
    if g: "getAppDeployment w reg (st\<lparr>deferred := [], allowedDeployments := Map.empty\<rparr>) =
            (Ok (pre @ c # post), s1)"
      and l: "reconcile_components w dd pre s1 = (Ok (), s2)"
  proof -
    obtain s3 where "reconcile_component w dd c s2 = (Panic (IndexOutOfRange 1 1), s3)"
      using rc[of s2] by (cases "reconcile_component w dd c s2") simp
    then show ?thesis using reconcileDeployments_stop[OF g l] by simp
  qed
  then show ?thesis using e rc by blast
qed

theorem missing_digest_panics_example:
  "\<not> sublist ''sha256:'' (PackageLocation nodigest) \<and>
   fst (reconcileDeployments (registry [nodigest]) ''reg'' ''/deploy'' (start iso_fs)) =
     Panic (IndexOutOfRange 1 1)"
proof -
  let ?g = "getAppDeployment (registry [nodigest]) ''reg''
              ((start iso_fs)\<lparr>deferred := [], allowedDeployments := Map.empty\<rparr>)"
  have h: "\<not> sublist ''sha256:'' (PackageLocation nodigest)"
    by code_simp
  have g1: "fst ?g = Ok [nodigest]"
    by code_simp
  have g: "?g = (Ok ([] @ nodigest # []), snd ?g)"
    using g1 by (simp add: prod_eq_iff)
  have l: "reconcile_components (registry [nodigest]) ''/deploy'' [] (snd ?g) = (Ok (), snd ?g)"
    by simp
  show ?thesis
    using missing_digest_panics[OF h, of "registry [nodigest]" "''/deploy''" "snd ?g" "''reg''"
        "start iso_fs" "[]" "[]" "snd ?g" "snd ?g"] g l h
    by simp
qed


section \<open>Where the digest is written\<close>

text \<open>
  C2, at an input where the code does not do what the claim says. The manifest lists
  \<open>A\<close> and \<open>B\<close>; \<open>A\<close> is deployed with a matching digest and \<open>B\<close> has no directory.
  \<open>A\<close> is found up to date and started. For \<open>B\<close> the key and the package are fetched
  and the signature verifies, and then the digest is written into the directory of \<open>B\<close>
  before \<^verbatim>\<open>os.MkdirAll\<close> creates it: the write fails, the pass returns that error, and
  the directory of \<open>B\<close> does not exist afterwards.
\<close>

theorem convergence_new_component_fails:
  "fst (reconcileDeployments conv_world ''reg'' ''/deploy'' (start conv_fs)) = Err ENOENT \<and>
   fs (snd (reconcileDeployments conv_world ''reg'' ''/deploy'' (start conv_fs))) = conv_fs \<and>
   lookup (fs (snd (reconcileDeployments conv_world ''reg'' ''/deploy'' (start conv_fs))))
     [''deploy'', ''B''] = None \<and>
   trace (snd (reconcileDeployments conv_world ''reg'' ''/deploy'' (start conv_fs))) =
     [Ping ''reg'', ManifestGet ''reg'', BlobGet ''reg'' ''sha256:00'',
      LogUpToDate ''A'', ComposePs ''/deploy/A'', LogStarting ''/deploy/A'', ComposeUp ''/deploy/A'',
      LogFetching ''B'',
      LogDownloading ''http://ghcr.io/v2/o/r/blobs/sha256:cc'', BlobGet ''ghcr.io/o/r:latest'' ''sha256:cc'',
      LogDownloading ''http://ghcr.io/v2/o/r/blobs/sha256:bb'', BlobGet ''ghcr.io/o/r:latest'' ''sha256:bb'',
      LogVerifying ''/tmp/B1/b.app'', LogVerified]"
  by code_simp

text \<open>
  C5, at an input where the code does not do what the claim says. \<open>B\<close> is deployed
  with an older digest and a \<^verbatim>\<open>docker-compose.yaml\<close>. The pass succeeds: the new digest
  is written, then the old deployment is brought down and its directory removed, the
  digest file with it, and the extraction with hidden entries skipped does not bring it
  back. After the successful apply there is no digest file.
\<close>

theorem reapply_loses_digest:
  "check_up_to_date [] reapply_fs ''/deploy/B/.hash'' ''bb'' = Inr False \<and>
   fst (reconcileDeployments reapply_world ''reg'' ''/deploy'' (start reapply_fs)) = Ok () \<and>
   fs (snd (reconcileDeployments reapply_world ''reg'' ''/deploy'' (start reapply_fs))) =
     [([''tmp''], Dir), ([''deploy''], Dir), ([''deploy'', ''B''], Dir),
      ([''deploy'', ''B'', ''docker-compose.yaml''], File ''services'')] \<and>
   read_file [] (fs (snd (reconcileDeployments reapply_world ''reg'' ''/deploy'' (start reapply_fs))))
     ''/deploy/B/.hash'' = Inl ENOENT \<and>
   trace (snd (reconcileDeployments reapply_world ''reg'' ''/deploy'' (start reapply_fs))) =
     [Ping ''reg'', ManifestGet ''reg'', BlobGet ''reg'' ''sha256:00'', LogFetching ''B'',
      LogDownloading ''http://ghcr.io/v2/o/r/blobs/sha256:cc'', BlobGet ''ghcr.io/o/r:latest'' ''sha256:cc'',
      LogDownloading ''http://ghcr.io/v2/o/r/blobs/sha256:bb'', BlobGet ''ghcr.io/o/r:latest'' ''sha256:bb'',
      LogVerifying ''/tmp/B1/b.app'', LogVerified, ComposeDown ''/deploy/B'',
      ComposePs ''/deploy/B'', LogStarting ''/deploy/B'', ComposeUp ''/deploy/B'']"
  by code_simp


section \<open>The file system: what an operation leaves alone\<close>

lemma lookup_put:
  "k \<noteq> [] \<Longrightarrow> lookup (put f k n) k' = (if k' = k then Some n else lookup f k')"
  by (simp add: lookup_def put_def update_conv')

lemma map_of_filter_keys:
  "map_of (filter (\<lambda>(p, n). Q p) f) k = (if Q k then map_of f k else None)"
  by (induction f) auto

lemma lookup_remove_tree:
  "lookup (remove_tree f k) k' =
     (if k' = [] then Some Dir else if prefix k k' then None else lookup f k')"
  by (simp add: lookup_def remove_tree_def map_of_filter_keys)

lemma mkdirs_keeps:
  "lookup f k = Some n \<Longrightarrow> lookup (snd (mkdirs f pre cs)) k = Some n"
proof (induction cs arbitrary: f pre)
  case Nil
  then show ?case by simp
next
  case (Cons c cs)
  show ?case
  proof (cases "lookup f (pre @ [c])")
    case None
    then have "lookup (put f (pre @ [c]) Dir) k = Some n"
      using Cons.prems by (auto simp: lookup_put)
    then show ?thesis using None Cons.IH by simp
  next
    case (Some nd)
    then show ?thesis using Cons by (cases nd) simp_all
  qed
qed

lemma mkdirs_frame:
  "\<not> prefix k (pre @ cs) \<Longrightarrow> prefix k k' \<Longrightarrow>
   lookup (snd (mkdirs f pre cs)) k' = lookup f k'"
proof (induction cs arbitrary: f pre)
  case Nil
  then show ?case by simp
next
  case (Cons c cs)
  have np: "\<not> prefix k ((pre @ [c]) @ cs)" using Cons.prems(1) by simp
  have ne: "k' \<noteq> pre @ [c]"
  proof
    assume "k' = pre @ [c]"
    then have "prefix k (pre @ [c])" using Cons.prems(2) by simp
    then have "prefix k (pre @ c # cs)"
      by (metis append.assoc append_Cons append_Nil prefix_order.trans prefixI)
    then show False using Cons.prems(1) by simp
  qed
  show ?case
  proof (cases "lookup f (pre @ [c])")
    case None
    have "lookup (snd (mkdirs (put f (pre @ [c]) Dir) (pre @ [c]) cs)) k' =
          lookup (put f (pre @ [c]) Dir) k'"
      using Cons.IH[OF np Cons.prems(2)] .
    then show ?thesis using None ne by (simp add: lookup_put)
  next
    case (Some nd)
    then show ?thesis using Cons.IH[OF np Cons.prems(2)] by (cases nd) simp_all
  qed
qed

lemma open_create_key:
  "open_create wd f name = Inr (k, old) \<Longrightarrow>
   k = resolve wd name \<and> k \<noteq> [] \<and> lookup f k \<noteq> Some Dir"
  by (auto simp: open_create_def Let_def split: if_splits option.splits node.splits)

lemma os_MkdirAll_keeps:
  "lookup f k = Some n \<Longrightarrow> lookup (snd (os_MkdirAll wd f name)) k = Some n"
  by (simp add: os_MkdirAll_def mkdirs_keeps)

lemma os_MkdirAll_frame:
  "\<not> prefix k (resolve wd name) \<Longrightarrow> prefix k k' \<Longrightarrow>
   lookup (snd (os_MkdirAll wd f name)) k' = lookup f k'"
  using mkdirs_frame[of k "[]" "resolve wd name" k' f] by (simp add: os_MkdirAll_def)

section \<open>Components that are up to date\<close>

lemma quiet_refl: "quiet s s"
  by (simp add: quiet_def)

lemma quiet_trans: "quiet a b \<Longrightarrow> quiet b c \<Longrightarrow> quiet a c"
  by (simp add: quiet_def)

lemma dockerEnsureRunning_quiet:
  "quiet st (snd (dockerEnsureRunning w dir st)) \<and>
   allowedDeployments (snd (dockerEnsureRunning w dir st)) = allowedDeployments st"
  by (simp add: dockerEnsureRunning_def quiet_def emit_def split: option.splits)

lemma ensureRunning_logged_quiet:
  "quiet st (ensureRunning_logged w name dir st) \<and>
   allowedDeployments (ensureRunning_logged w name dir st) = allowedDeployments st"
proof -
  obtain r s where d: "dockerEnsureRunning w dir st = (r, s)"
    by (cases "dockerEnsureRunning w dir st")
  have "quiet st s \<and> allowedDeployments s = allowedDeployments st"
    using dockerEnsureRunning_quiet[of st w dir] d by simp
  then show ?thesis
    using d by (cases r) (simp_all add: ensureRunning_logged_def quiet_def emit_def)
qed

lemma read_file_exists: "read_file wd f name = Inr h \<Longrightarrow> fileExists wd f name"
  by (auto simp: read_file_def fileExists_def split: sum.splits)

lemma current_check:
  "read_file wd f hashFile = Inr h \<Longrightarrow> check_up_to_date wd f hashFile h = Inr True"
  by (simp add: check_up_to_date_def read_file_exists)

lemma current_component:
  assumes "current (cwd w) (fs st) dd c"
  shows "fst (reconcile_component w dd c st) = Ok () \<and>
         quiet st (snd (reconcile_component w dd c st)) \<and>
         allowedDeployments (snd (reconcile_component w dd c st)) =
           (allowedDeployments st)(Name c \<mapsto> True)"
proof -
  obtain h where e: "expectedHashOf (PackageLocation c) = Inr h"
    and r: "read_file (cwd w) (fs st) (path_Join [path_Join [dd, Name c], ''.hash'']) = Inr h"
    using assms by (auto simp: current_def split: sum.splits)
  let ?s0 = "emit (LogUpToDate (Name c))
               (st\<lparr>allowedDeployments := (allowedDeployments st)(Name c \<mapsto> True)\<rparr>)"
  have rc: "reconcile_component w dd c st =
      (Ok (), ensureRunning_logged w (Name c) (path_Join [dd, Name c]) ?s0)"
    using e current_check[OF r] by (simp add: reconcile_component_def)
  have q0: "quiet st ?s0"
    by (simp add: quiet_def emit_def)
  have "quiet ?s0 (ensureRunning_logged w (Name c) (path_Join [dd, Name c]) ?s0) \<and>
        allowedDeployments (ensureRunning_logged w (Name c) (path_Join [dd, Name c]) ?s0) =
          allowedDeployments ?s0"
    by (rule ensureRunning_logged_quiet)
  then show ?thesis
    using rc quiet_trans[OF q0] by (simp add: emit_def)
qed

lemma current_components:
  "list_all (current (cwd w) (fs st) dd) cs \<Longrightarrow>
   fst (reconcile_components w dd cs st) = Ok () \<and>
   quiet st (snd (reconcile_components w dd cs st)) \<and>
   (\<forall>n. allowedDeployments (snd (reconcile_components w dd cs st)) n =
      (if n \<in> Name ` set cs then Some True else allowedDeployments st n))"
proof (induction cs arbitrary: st)
  case Nil
  then show ?case by (simp add: quiet_refl)
next
  case (Cons c cs)
  obtain r s where rc: "reconcile_component w dd c st = (r, s)"
    by (cases "reconcile_component w dd c st")
  have cur: "current (cwd w) (fs st) dd c" using Cons.prems by simp
  have r: "r = Ok ()" and q: "quiet st s"
    and al: "allowedDeployments s = (allowedDeployments st)(Name c \<mapsto> True)"
    using current_component[OF cur] rc by simp_all
  have "fs s = fs st" using q by (simp add: quiet_def)
  then have "list_all (current (cwd w) (fs s) dd) cs" using Cons.prems by simp
  from Cons.IH[OF this]
  have ih: "fst (reconcile_components w dd cs s) = Ok ()"
    "quiet s (snd (reconcile_components w dd cs s))"
    "\<forall>n. allowedDeployments (snd (reconcile_components w dd cs s)) n =
      (if n \<in> Name ` set cs then Some True else allowedDeployments s n)"
    by simp_all
  have step: "reconcile_components w dd (c # cs) st = reconcile_components w dd cs s"
    using rc r by simp
  show ?case
    unfolding step using ih quiet_trans[OF q ih(2)] al by auto
qed

lemma purge_one_quiet:
  "filter is_fetch (trace (purge_one w dd name st)) = filter is_fetch (trace st) \<and>
   deferred (purge_one w dd name st) = deferred st \<and>
   allowedDeployments (purge_one w dd name st) = allowedDeployments st"
  by (simp add: purge_one_def emit_def)

lemma purge_entries_quiet:
  "filter is_fetch (trace (purge_entries w dd es st)) = filter is_fetch (trace st) \<and>
   deferred (purge_entries w dd es st) = deferred st"
proof (induction es arbitrary: st)
  case Nil
  then show ?case by simp
next
  case (Cons e es)
  obtain name nd where e: "e = (name, nd)" by (cases e)
  show ?case
    using Cons.IH[of "purge_one w dd name st"] Cons.IH[of st] purge_one_quiet[of w dd name st] e
    by simp
qed

lemma getAppDeployment_fs:
  "fs (snd (getAppDeployment w reg st)) = fs st \<and>
   deferred (snd (getAppDeployment w reg st)) = deferred st \<and>
   allowedDeployments (snd (getAppDeployment w reg st)) = allowedDeployments st"
  by (simp add: getAppDeployment_def emit_def split: option.splits manifest.splits)

text \<open>
  C4. A pass over a manifest all of whose components have their stored digest file, equal
  to the digest in the package location, fetches no key and no package: the loop
  succeeds, leaves the file system as it was and adds no fetch to those that brought the
  manifest, and neither does the rest of the pass. For such a component the loop body only
  reads the digest file and calls \<^verbatim>\<open>dockerEnsureRunning\<close>.
\<close>

theorem second_pass_fetches_nothing:
  assumes "getAppDeployment w reg (st\<lparr>deferred := [], allowedDeployments := Map.empty\<rparr>) = (Ok cs, s1)"
    and "list_all (current (cwd w) (fs st) dd) cs"
  shows "fst (reconcile_components w dd cs s1) = Ok () \<and>
         fs (snd (reconcile_components w dd cs s1)) = fs st \<and>
         filter is_fetch (trace (snd (reconcile_components w dd cs s1))) =
           filter is_fetch (trace s1) \<and>
         fst (reconcileDeployments w reg dd st) = Ok () \<and>
         filter is_fetch (trace (snd (reconcileDeployments w reg dd st))) =
           filter is_fetch (trace s1)"
proof -
  have f1: "fs s1 = fs st"
    using getAppDeployment_fs[of w reg "st\<lparr>deferred := [], allowedDeployments := Map.empty\<rparr>"] assms(1)
    by simp
  obtain r s2 where l: "reconcile_components w dd cs s1 = (r, s2)"
    by (cases "reconcile_components w dd cs s1")
  have cur: "list_all (current (cwd w) (fs s1) dd) cs" using assms(2) f1 by simp
  have r: "r = Ok ()" and q: "quiet s1 s2"
    using current_components[OF cur] l by simp_all
  have p: "filter is_fetch (trace (purge w dd s2)) = filter is_fetch (trace s2)"
    using purge_entries_quiet[of w dd _ s2] by (simp add: purge_def)
  have rd: "reconcileDeployments w reg dd st = (Ok (), run_deferred w (purge w dd s2))"
    using assms(1) l r by (simp add: reconcileDeployments_def)
  show ?thesis
    using l r q f1 p rd by (simp add: quiet_def run_deferred_def)
qed

theorem second_pass_fetches_nothing_example:
  "list_all (current (cwd idem_world) (fs (start idem_fs)) ''/deploy'')
     [mk_component ''A'' ''cc'' ''aa'', mk_component ''B'' ''cc'' ''bb''] \<and>
   fst (reconcileDeployments idem_world ''reg'' ''/deploy'' (start idem_fs)) = Ok () \<and>
   filter is_fetch (trace (snd (reconcileDeployments idem_world ''reg'' ''/deploy'' (start idem_fs)))) =
     [BlobGet ''reg'' ''sha256:00'']"
proof -
  let ?g = "getAppDeployment idem_world ''reg''
              ((start idem_fs)\<lparr>deferred := [], allowedDeployments := Map.empty\<rparr>)"
  have g1: "fst ?g = Ok [mk_component ''A'' ''cc'' ''aa'', mk_component ''B'' ''cc'' ''bb'']"
    by code_simp
  have g: "?g = (Ok [mk_component ''A'' ''cc'' ''aa'', mk_component ''B'' ''cc'' ''bb''], snd ?g)"
    using g1 by (simp add: prod_eq_iff)
  have cur: "list_all (current (cwd idem_world) (fs (start idem_fs)) ''/deploy'')
      [mk_component ''A'' ''cc'' ''aa'', mk_component ''B'' ''cc'' ''bb'']"
    by code_simp
  have t: "filter is_fetch (trace (snd ?g)) = [BlobGet ''reg'' ''sha256:00'']"
    by code_simp
  show ?thesis
    using second_pass_fetches_nothing[OF g cur] cur t by simp
qed


section \<open>Paths: joining and resolving\<close>

lemma split_slash_nonempty: "split_slash s \<noteq> []"
  by (induction s) (auto split: list.splits)

lemma split_slash_no_slash: "CHR ''/'' \<notin> set n \<Longrightarrow> split_slash n = [n]"
  by (induction n) auto

lemma split_slash_append:
  "split_slash (a @ CHR ''/'' # b) = split_slash a @ split_slash b"
proof (induction a)
  case Nil
  then show ?case by simp
next
  case (Cons x a)
  show ?case
  proof (cases "x = CHR ''/''")
    case True
    then show ?thesis using Cons by simp
  next
    case False
    obtain p ps where s: "split_slash a = p # ps"
      using split_slash_nonempty[of a] by (cases "split_slash a") auto
    show ?thesis using False Cons s by simp
  qed
qed

lemma split_slash_comps: "p \<in> set (split_slash s) \<Longrightarrow> CHR ''/'' \<notin> set p"
proof (induction s arbitrary: p)
  case Nil
  then show ?case by simp
next
  case (Cons x s)
  show ?case
  proof (cases "x = CHR ''/''")
    case True
    then show ?thesis using Cons by auto
  next
    case False
    obtain q qs where s: "split_slash s = q # qs"
      using split_slash_nonempty[of s] by (cases "split_slash s") auto
    have "CHR ''/'' \<notin> set q" using Cons.IH[of q] s by simp
    moreover have "\<And>y. y \<in> set qs \<Longrightarrow> CHR ''/'' \<notin> set y" using Cons.IH s by simp
    ultimately show ?thesis using False Cons.prems s by auto
  qed
qed

lemma split_join:
  "st \<noteq> [] \<Longrightarrow> list_all (\<lambda>p. CHR ''/'' \<notin> set p) st \<Longrightarrow> split_slash (join_slash st) = st"
proof (induction st rule: join_slash.induct)
  case 1
  then show ?case by simp
next
  case (2 p)
  then show ?case by (simp add: split_slash_no_slash)
next
  case (3 p q ps)
  then show ?case by (simp add: split_slash_append split_slash_no_slash)
qed

lemma clean_step_inv:
  "clean_inv r st \<Longrightarrow> CHR ''/'' \<notin> set c \<Longrightarrow> clean_inv r (clean_step r st c)"
  by (auto simp: clean_inv_def clean_step_def list_all_iff dest: in_set_butlastD)

lemma foldl_clean_inv:
  "clean_inv r st \<Longrightarrow> list_all (\<lambda>c. CHR ''/'' \<notin> set c) cs \<Longrightarrow>
   clean_inv r (foldl (clean_step r) st cs)"
  by (induction cs arbitrary: st) (simp_all add: clean_step_inv)

lemma walk_snoc:
  assumes "st \<noteq> []" and "last st \<noteq> []" and "last st \<noteq> ''.''" and "last st \<noteq> ''..''"
  shows "foldl walk_step base st = foldl walk_step base (butlast st) @ [last st]"
proof -
  have "foldl walk_step base (butlast st @ [last st]) =
        walk_step (foldl walk_step base (butlast st)) (last st)"
    by simp
  then show ?thesis using assms by (simp add: walk_step_def)
qed

lemma walk_clean_step:
  assumes "clean_inv r st" and "r \<longrightarrow> base = []"
  shows "foldl walk_step base (clean_step r st c) = walk_step (foldl walk_step base st) c"
proof (cases "c = [] \<or> c = ''.''")
  case True
  then show ?thesis by (auto simp: clean_step_def walk_step_def)
next
  case False
  show ?thesis
  proof (cases "c = ''..''")
    case dd: True
    show ?thesis
    proof (cases "st \<noteq> [] \<and> last st \<noteq> ''..''")
      case True
      then have "last st \<in> set st" by simp
      then have "last st \<noteq> []" "last st \<noteq> ''.''"
        using assms(1) by (auto simp: clean_inv_def list_all_iff)
      then have "foldl walk_step base st = foldl walk_step base (butlast st) @ [last st]"
        using True walk_snoc by blast
      then show ?thesis using dd True by (simp add: clean_step_def walk_step_def)
    next
      case ne: False
      show ?thesis
      proof (cases r)
        case True
        have "st = []"
        proof (rule ccontr)
          assume "st \<noteq> []"
          then have "last st = ''..''" and "last st \<in> set st"
            using ne last_in_set[of st] by simp_all
          then have "''..'' \<in> set st" by simp
          then show False using assms(1) True by (simp add: clean_inv_def)
        qed
        then show ?thesis using dd True assms(2) by (simp add: clean_step_def walk_step_def)
      next
        case False
        then show ?thesis using dd ne by (auto simp: clean_step_def)
      qed
    qed
  next
    case False
    then show ?thesis using \<open>\<not> (c = [] \<or> c = ''.'')\<close> by (simp add: clean_step_def walk_step_def)
  qed
qed

lemma walk_foldl_clean:
  "clean_inv r st \<Longrightarrow> r \<longrightarrow> base = [] \<Longrightarrow> list_all (\<lambda>c. CHR ''/'' \<notin> set c) cs \<Longrightarrow>
   foldl walk_step base (foldl (clean_step r) st cs) = foldl walk_step (foldl walk_step base st) cs"
proof (induction cs arbitrary: st)
  case Nil
  then show ?case by simp
next
  case (Cons c cs)
  have i: "clean_inv r (clean_step r st c)" using Cons.prems by (simp add: clean_step_inv)
  show ?case
    using Cons.IH[OF i Cons.prems(2)] Cons.prems walk_clean_step[OF Cons.prems(1,2)] by simp
qed

lemma split_all_comps: "list_all (\<lambda>c. CHR ''/'' \<notin> set c) (split_slash s)"
  by (simp add: list_all_iff split_slash_comps)

lemma clean_stack:
  "clean_inv (rooted s) (foldl (clean_step (rooted s)) [] (split_slash s))"
  by (rule foldl_clean_inv) (simp_all add: clean_inv_def split_all_comps)

lemma walk_normal:
  "list_all (\<lambda>x. x \<noteq> [] \<and> x \<noteq> ''.'' \<and> CHR ''/'' \<notin> set x) st \<Longrightarrow> st \<noteq> [] \<Longrightarrow>
   join_slash st \<noteq> [] \<and> \<not> rooted (join_slash st)"
proof (induction st rule: join_slash.induct)
  case 1
  then show ?case by simp
next
  case (2 p)
  then show ?case by (cases p) (auto simp: rooted_def)
next
  case (3 p q ps)
  then show ?case by (cases p) (auto simp: rooted_def)
qed

lemma path_Clean_nonempty: "path_Clean s \<noteq> []"
  using clean_stack[of s] walk_normal[of "foldl (clean_step (rooted s)) [] (split_slash s)"]
  by (auto simp: path_Clean_def Let_def clean_inv_def)

lemma resolve_Clean: "resolve wd (path_Clean s) = resolve wd s"
proof -
  let ?st = "foldl (clean_step (rooted s)) [] (split_slash s)"
  have inv: "clean_inv (rooted s) ?st" by (rule clean_stack)
  then have sl: "list_all (\<lambda>p. CHR ''/'' \<notin> set p) ?st"
    by (auto simp: clean_inv_def list_all_iff)
  have w: "\<And>base. (rooted s \<longrightarrow> base = []) \<Longrightarrow>
      foldl walk_step base ?st = foldl walk_step base (split_slash s)"
    using walk_foldl_clean[of "rooted s" "[]" _ "split_slash s"]
    by (simp add: clean_inv_def split_all_comps)
  show ?thesis
  proof (cases "rooted s")
    case True
    have c: "path_Clean s = CHR ''/'' # join_slash ?st"
      using True by (simp add: path_Clean_def Let_def)
    have r: "rooted (path_Clean s)" using c by (simp add: rooted_def)
    have "foldl walk_step [] (split_slash (join_slash ?st)) = foldl walk_step [] ?st"
    proof (cases "?st = []")
      case True
      then show ?thesis by (simp add: walk_step_def)
    next
      case False
      then show ?thesis using split_join[OF False sl] by simp
    qed
    then have "resolve wd (path_Clean s) = foldl walk_step [] ?st"
      using c r by (simp add: resolve_def walk_step_def)
    then show ?thesis using w[of "[]"] True by (simp add: resolve_def)
  next
    case False
    show ?thesis
    proof (cases "?st = []")
      case True
      then have "path_Clean s = ''.''" using False by (simp add: path_Clean_def Let_def)
      then have "resolve wd (path_Clean s) = wd"
        by (simp add: resolve_def rooted_def walk_step_def)
      then show ?thesis using w[of wd] True False by (simp add: resolve_def)
    next
      case ne: False
      have c: "path_Clean s = join_slash ?st"
        using False ne by (simp add: path_Clean_def Let_def)
      have nr: "\<not> rooted (join_slash ?st)"
        using walk_normal[of ?st] inv ne by (simp add: clean_inv_def)
      have "resolve wd (path_Clean s) = foldl walk_step wd ?st"
        using c nr split_join[OF ne sl] by (simp add: resolve_def)
      then show ?thesis using w[of wd] False by (simp add: resolve_def)
    qed
  qed
qed

lemma resolve_slash:
  assumes "d \<noteq> []" and "simple_name n"
  shows "resolve wd (d @ CHR ''/'' # n) = resolve wd d @ [n]"
proof -
  have r: "rooted (d @ CHR ''/'' # n) = rooted d"
    using assms(1) by (cases d) (simp_all add: rooted_def)
  have s: "split_slash (d @ CHR ''/'' # n) = split_slash d @ [n]"
    using assms(2) by (simp add: split_slash_append split_slash_no_slash simple_name_def)
  show ?thesis
    using assms(2) r s by (simp add: resolve_def walk_step_def simple_name_def)
qed

lemma resolve_simple: "simple_name n \<Longrightarrow> resolve wd n = wd @ [n]"
  by (cases n) (auto simp: resolve_def rooted_def split_slash_no_slash walk_step_def simple_name_def)

lemma resolve_empty: "resolve wd [] = wd"
  by (simp add: resolve_def rooted_def walk_step_def)

lemma resolve_Join:
  assumes "simple_name n"
  shows "resolve wd (path_Join [d, n]) = resolve wd d @ [n] \<and> path_Join [d, n] \<noteq> []"
proof (cases "d = []")
  case True
  have "n \<noteq> []" using assms by (simp add: simple_name_def)
  then have "path_Join [d, n] = path_Clean n" using True by (simp add: path_Join_def)
  then show ?thesis
    using True assms by (simp add: resolve_Clean resolve_simple resolve_empty path_Clean_nonempty)
next
  case False
  have "n \<noteq> []" using assms by (simp add: simple_name_def)
  then have "path_Join [d, n] = path_Clean (d @ CHR ''/'' # n)"
    using False by (simp add: path_Join_def)
  then show ?thesis
    using resolve_slash[OF False assms] by (simp add: resolve_Clean path_Clean_nonempty)
qed

section \<open>The purge\<close>

lemma set_map_filter:
  "set (List.map_filter g xs) = {y. \<exists>x. x \<in> set xs \<and> g x = Some y}"
  by (induction xs) (auto split: option.splits)

lemma read_dir_entry:
  assumes "(name, nd) \<in> set (read_dir wd f dd)"
  shows "\<exists>k. k \<in> fst ` set f \<and> k \<noteq> [] \<and> butlast k = resolve wd dd \<and> last k = name \<and>
             lookup f k = Some nd"
proof -
  have "(name, nd) \<in> set (List.map_filter
            (\<lambda>k. case lookup f k of None \<Rightarrow> None | Some nd \<Rightarrow> Some (last k, nd))
            (remdups (filter (\<lambda>k. k \<noteq> [] \<and> butlast k = resolve wd dd) (map fst f))))"
    using assms by (auto simp: read_dir_def split: sum.splits node.splits)
  then obtain k where k: "k \<in> set (filter (\<lambda>k. k \<noteq> [] \<and> butlast k = resolve wd dd) (map fst f))"
    and v: "(case lookup f k of None \<Rightarrow> None | Some nd \<Rightarrow> Some (last k, nd)) = Some (name, nd)"
    by (auto simp: set_map_filter)
  from v have "lookup f k = Some nd \<and> last k = name"
    by (auto split: option.splits)
  then show ?thesis using k by auto
qed

lemma read_dir_simple:
  assumes "names_ok f" and "(name, nd) \<in> set (read_dir wd f dd)"
  shows "simple_name name"
proof -
  obtain k where k: "k \<in> fst ` set f" "k \<noteq> []" "last k = name"
    using read_dir_entry[OF assms(2)] by blast
  then have "list_all simple_name k" using assms(1) by (auto simp: names_ok_def list_all_iff)
  moreover have "last k \<in> set k" using k(2) by simp
  ultimately show ?thesis using k(3) by (auto simp: list_all_iff)
qed

lemma purge_one_fs:
  assumes "simple_name name"
  shows "fs (purge_one w dd name st) = remove_tree (fs st) (resolve (cwd w) dd @ [name])"
  using resolve_Join[OF assms, of "cwd w" dd] by (simp add: purge_one_def os_RemoveAll_def emit_def)

lemma purge_one_allowed: "is_allowed (purge_one w dd name st) = is_allowed st"
  by (rule ext) (simp add: is_allowed_def purge_one_def emit_def)

lemma purge_entries_step:
  "purge_entries w dd ((name, nd) # rest) st =
     (if nd = Dir \<and> \<not> is_allowed st name
      then purge_entries w dd rest (purge_one w dd name st)
      else purge_entries w dd rest st)"
  by (simp add: is_allowed_def)

lemma purge_entries_lookup:
  assumes "list_all (\<lambda>(name, nd). simple_name name) es"
  shows "lookup (fs (purge_entries w dd es st)) k =
           (if k \<noteq> [] \<and> (\<exists>name. (name, Dir) \<in> set es \<and> \<not> is_allowed st name \<and>
                               prefix (resolve (cwd w) dd @ [name]) k)
            then None else lookup (fs st) k)"
  using assms
proof (induction es arbitrary: st)
  case Nil
  then show ?case by simp
next
  case (Cons e es)
  obtain name nd where e: "e = (name, nd)" by (cases e)
  have sn: "simple_name name" and rest: "list_all (\<lambda>(name, nd). simple_name name) es"
    using Cons.prems e by simp_all
  show ?case
  proof (cases "nd = Dir \<and> \<not> is_allowed st name")
    case True
    have step: "purge_entries w dd (e # es) st = purge_entries w dd es (purge_one w dd name st)"
      using True e by (simp add: purge_entries_step del: purge_entries.simps)
    have l: "lookup (fs (purge_one w dd name st)) k =
        (if k = [] then Some Dir else if prefix (resolve (cwd w) dd @ [name]) k then None
         else lookup (fs st) k)"
      by (simp add: purge_one_fs[OF sn] lookup_remove_tree)
    have k0: "k = [] \<Longrightarrow> lookup (fs st) k = Some Dir" by (simp add: lookup_def)
    show ?thesis
      unfolding step Cons.IH[OF rest, of "purge_one w dd name st"] purge_one_allowed l
      using True e k0 by auto
  next
    case False
    have step: "purge_entries w dd (e # es) st = purge_entries w dd es st"
      using False e by (auto simp add: purge_entries_step simp del: purge_entries.simps)
    show ?thesis
      unfolding step Cons.IH[OF rest, of st] using False e by auto
  qed
qed

lemma prefix_snoc_same: "prefix (a @ [x]) k \<Longrightarrow> prefix (a @ [y]) k \<Longrightarrow> x = y"
  by (auto simp: prefix_def)

text \<open>
  C6. A pass over a manifest whose components are all up to date succeeds, removes every
  directory of the deployment directory that the manifest does not name, with all that is
  below it, and leaves everything at and below the directories of the components of the
  manifest as it was. With the directories \<open>A\<close>, \<open>B\<close> and \<open>C\<close> and the manifest
  \<open>A\<close>, \<open>B\<close>, the pass removes \<open>C\<close> and leaves \<open>A\<close> and \<open>B\<close> unchanged. The names
  are names of directories: one path component each.
\<close>

theorem purge_removes_stale_keeps_current:
  assumes g: "getAppDeployment w reg (st\<lparr>deferred := [], allowedDeployments := Map.empty\<rparr>) = (Ok cs, s1)"
    and cur: "list_all (current (cwd w) (fs st) dd) cs"
    and names: "list_all (\<lambda>c. simple_name (Name c)) cs"
    and wf: "names_ok (fs st)"
  shows "fst (reconcileDeployments w reg dd st) = Ok () \<and>
         (\<forall>n k. (n, Dir) \<in> set (read_dir (cwd w) (fs st) dd) \<longrightarrow> n \<notin> Name ` set cs \<longrightarrow>
                prefix (resolve (cwd w) dd @ [n]) k \<longrightarrow>
                lookup (fs (snd (reconcileDeployments w reg dd st))) k = None) \<and>
         (\<forall>c k. c \<in> set cs \<longrightarrow> prefix (resolve (cwd w) (path_Join [dd, Name c])) k \<longrightarrow>
                lookup (fs (snd (reconcileDeployments w reg dd st))) k = lookup (fs st) k)"
proof -
  let ?st0 = "st\<lparr>deferred := [], allowedDeployments := Map.empty\<rparr>"
  have s1: "fs s1 = fs st" "deferred s1 = []" "allowedDeployments s1 = Map.empty"
    using getAppDeployment_fs[of w reg ?st0] g by simp_all
  obtain r s2 where l: "reconcile_components w dd cs s1 = (r, s2)"
    by (cases "reconcile_components w dd cs s1")
  have cur1: "list_all (current (cwd w) (fs s1) dd) cs" using cur s1 by simp
  have r: "r = Ok ()" and q: "quiet s1 s2"
    and al: "\<forall>n. allowedDeployments s2 n =
               (if n \<in> Name ` set cs then Some True else allowedDeployments s1 n)"
    using current_components[OF cur1] l by simp_all
  have f2: "fs s2 = fs st" and d2: "deferred s2 = []"
    using q s1 by (simp_all add: quiet_def)
  have ia: "\<And>n. is_allowed s2 n = (n \<in> Name ` set cs)"
    using al s1(3) by (simp add: is_allowed_def)
  let ?es = "read_dir (cwd w) (fs st) dd"
  have es: "list_all (\<lambda>(name, nd). simple_name name) ?es"
    using read_dir_simple[OF wf] by (auto simp: list_all_iff)
  have p: "purge w dd s2 = purge_entries w dd ?es s2"
    by (simp add: purge_def f2)
  have dp: "deferred (purge w dd s2) = []"
    using purge_entries_quiet[of w dd ?es s2] p d2 by simp
  have rd: "reconcileDeployments w reg dd st = (Ok (), run_deferred w (purge w dd s2))"
    using g l r by (simp add: reconcileDeployments_def)
  have ff: "fs (snd (reconcileDeployments w reg dd st)) = fs (purge_entries w dd ?es s2)"
    using rd dp p by (simp add: run_deferred_def)
  have lk: "\<And>k. lookup (fs (snd (reconcileDeployments w reg dd st))) k =
      (if k \<noteq> [] \<and> (\<exists>name. (name, Dir) \<in> set ?es \<and> name \<notin> Name ` set cs \<and>
                          prefix (resolve (cwd w) dd @ [name]) k)
       then None else lookup (fs st) k)"
    unfolding ff purge_entries_lookup[OF es] ia f2 by simp
  have a: "fst (reconcileDeployments w reg dd st) = Ok ()" using rd by simp
  have b: "lookup (fs (snd (reconcileDeployments w reg dd st))) k = None"
    if "(n, Dir) \<in> set ?es" "n \<notin> Name ` set cs" "prefix (resolve (cwd w) dd @ [n]) k" for n k
  proof -
    have "k \<noteq> []" using that(3) by auto
    then show ?thesis unfolding lk using that by auto
  qed
  have c: "lookup (fs (snd (reconcileDeployments w reg dd st))) k = lookup (fs st) k"
    if "c \<in> set cs" "prefix (resolve (cwd w) (path_Join [dd, Name c])) k" for c k
  proof -
    have sn: "simple_name (Name c)" using names that(1) by (simp add: list_all_iff)
    have pk: "prefix (resolve (cwd w) dd @ [Name c]) k"
      using that(2) resolve_Join[OF sn, of "cwd w" dd] by simp
    have ne: "\<not> (\<exists>name. (name, Dir) \<in> set ?es \<and> name \<notin> Name ` set cs \<and>
                 prefix (resolve (cwd w) dd @ [name]) k)"
    proof
      assume "\<exists>name. (name, Dir) \<in> set ?es \<and> name \<notin> Name ` set cs \<and>
                 prefix (resolve (cwd w) dd @ [name]) k"
      then obtain name where n: "name \<notin> Name ` set cs" "prefix (resolve (cwd w) dd @ [name]) k"
        by blast
      have "name = Name c" by (rule prefix_snoc_same[OF n(2) pk])
      then show False using n(1) that(1) by simp
    qed
    show ?thesis unfolding lk by (simp only: ne simp_thms if_False)
  qed
  show ?thesis
  proof (intro conjI allI impI)
    show "fst (reconcileDeployments w reg dd st) = Ok ()" by (rule a)
  next
    fix n k
    assume "(n, Dir) \<in> set ?es" "n \<notin> Name ` set cs" "prefix (resolve (cwd w) dd @ [n]) k"
    then show "lookup (fs (snd (reconcileDeployments w reg dd st))) k = None" by (rule b)
  next
    fix c k
    assume "c \<in> set cs" "prefix (resolve (cwd w) (path_Join [dd, Name c])) k"
    then show "lookup (fs (snd (reconcileDeployments w reg dd st))) k = lookup (fs st) k"
      by (rule c)
  qed
qed

theorem purge_removes_stale_keeps_current_example:
  "list_all (current (cwd idem_world) (fs (start purge_fs)) ''/deploy'')
     [mk_component ''A'' ''cc'' ''aa'', mk_component ''B'' ''cc'' ''bb''] \<and>
   list_all (\<lambda>c. simple_name (Name c)) [mk_component ''A'' ''cc'' ''aa'', mk_component ''B'' ''cc'' ''bb''] \<and>
   names_ok (fs (start purge_fs)) \<and>
   fst (reconcileDeployments idem_world ''reg'' ''/deploy'' (start purge_fs)) = Ok () \<and>
   lookup (fs (snd (reconcileDeployments idem_world ''reg'' ''/deploy'' (start purge_fs))))
     [''deploy'', ''C''] = None \<and>
   lookup (fs (snd (reconcileDeployments idem_world ''reg'' ''/deploy'' (start purge_fs))))
     [''deploy'', ''C'', ''docker-compose.yaml''] = None \<and>
   lookup (fs (snd (reconcileDeployments idem_world ''reg'' ''/deploy'' (start purge_fs))))
     [''deploy'', ''A'', ''.hash''] = Some (File ''aa'') \<and>
   lookup (fs (snd (reconcileDeployments idem_world ''reg'' ''/deploy'' (start purge_fs))))
     [''deploy'', ''B'', ''docker-compose.yaml''] = Some (File ''services'')"
proof -
  let ?cs = "[mk_component ''A'' ''cc'' ''aa'', mk_component ''B'' ''cc'' ''bb'']"
  let ?g = "getAppDeployment idem_world ''reg''
              ((start purge_fs)\<lparr>deferred := [], allowedDeployments := Map.empty\<rparr>)"
  let ?f = "fs (snd (reconcileDeployments idem_world ''reg'' ''/deploy'' (start purge_fs)))"
  have g1: "fst ?g = Ok ?cs"
    by code_simp
  have g: "?g = (Ok ?cs, snd ?g)"
    using g1 by (simp add: prod_eq_iff)
  have cur: "list_all (current (cwd idem_world) (fs (start purge_fs)) ''/deploy'') ?cs"
    by code_simp
  have names: "list_all (\<lambda>c. simple_name (Name c)) ?cs"
    by code_simp
  have wf: "names_ok (fs (start purge_fs))"
    by code_simp
  note t = purge_removes_stale_keeps_current[OF g cur names wf]
  note ta = t[THEN conjunct1]
  note tb = t[THEN conjunct2, THEN conjunct1, rule_format]
  note tc = t[THEN conjunct2, THEN conjunct2, rule_format]
  have e: "(''C'', Dir) \<in> set (read_dir (cwd idem_world) (fs (start purge_fs)) ''/deploy'')"
    by code_simp
  have n: "''C'' \<notin> Name ` set ?cs"
    by (simp add: mk_component_def)
  have dk: "resolve (cwd idem_world) ''/deploy'' @ [''C''] = [''deploy'', ''C'']"
    by code_simp
  have ka: "resolve (cwd idem_world) (path_Join [''/deploy'', Name (mk_component ''A'' ''cc'' ''aa'')]) =
      [''deploy'', ''A'']"
    by code_simp
  have kb: "resolve (cwd idem_world) (path_Join [''/deploy'', Name (mk_component ''B'' ''cc'' ''bb'')]) =
      [''deploy'', ''B'']"
    by code_simp
  have p1: "prefix (resolve (cwd idem_world) ''/deploy'' @ [''C'']) [''deploy'', ''C'']"
    unfolding dk by simp
  have c1: "lookup ?f [''deploy'', ''C''] = None"
    by (rule tb[OF e n p1])
  have p2: "prefix (resolve (cwd idem_world) ''/deploy'' @ [''C''])
      [''deploy'', ''C'', ''docker-compose.yaml'']"
    unfolding dk by simp
  have c2: "lookup ?f [''deploy'', ''C'', ''docker-compose.yaml''] = None"
    by (rule tb[OF e n p2])
  have ma: "mk_component ''A'' ''cc'' ''aa'' \<in> set ?cs"
    by simp
  have pa: "prefix (resolve (cwd idem_world) (path_Join [''/deploy'', Name (mk_component ''A'' ''cc'' ''aa'')]))
      [''deploy'', ''A'', ''.hash'']"
    unfolding ka by simp
  have a1: "lookup ?f [''deploy'', ''A'', ''.hash''] =
      lookup (fs (start purge_fs)) [''deploy'', ''A'', ''.hash'']"
    by (rule tc[OF ma pa])
  have mb: "mk_component ''B'' ''cc'' ''bb'' \<in> set ?cs"
    by simp
  have pb: "prefix (resolve (cwd idem_world) (path_Join [''/deploy'', Name (mk_component ''B'' ''cc'' ''bb'')]))
      [''deploy'', ''B'', ''docker-compose.yaml'']"
    unfolding kb by simp
  have b1: "lookup ?f [''deploy'', ''B'', ''docker-compose.yaml''] =
      lookup (fs (start purge_fs)) [''deploy'', ''B'', ''docker-compose.yaml'']"
    by (rule tc[OF mb pb])
  have a2: "lookup (fs (start purge_fs)) [''deploy'', ''A'', ''.hash''] = Some (File ''aa'')"
    by code_simp
  have b2: "lookup (fs (start purge_fs)) [''deploy'', ''B'', ''docker-compose.yaml''] =
      Some (File ''services'')"
    by code_simp
  have a0: "fst (reconcileDeployments idem_world ''reg'' ''/deploy'' (start purge_fs)) = Ok ()"
    by (rule ta)
  have a3: "lookup ?f [''deploy'', ''A'', ''.hash''] = Some (File ''aa'')"
    using a1 a2 by simp
  have b3: "lookup ?f [''deploy'', ''B'', ''docker-compose.yaml''] = Some (File ''services'')"
    using b1 b2 by simp
  show ?thesis
    by (intro conjI cur names wf a0 c1 c2 a3 b3)
qed


end
